theory Spec2Isabelle
  imports Complex_Main "HOL-Library.Word" "HOL-Library.Sublist" "HOL-Library.AList"
begin

section \<open>The asset compressor of LUME: \<open>scripts/gzip_web_files.py\<close>\<close>

text \<open>
  The script is one function, \<open>gzip_web_files(source, target, env)\<close>, run by the build
  tool before a file-system upload. It never reads its three arguments. Everything it
  does is a sequence of calls into \<open>pathlib\<close>, \<open>gzip\<close>, \<open>shutil\<close> and \<open>print\<close>, so the
  embedding consists of a small model of those calls over an explicit file system, and of
  the function itself, written line by line on top of that model.

  The file system holds regular files and directories; links are not modelled. The
  script runs as a single build step, so nothing else changes the file system while it
  runs.
\<close>

subsection \<open>Data\<close>

type_synonym byte = "8 word"
type_synonym bytes = "byte list"

text \<open>
  \<open>st_mtime\<close> is a Python float; every finite float is a rational number and the
  comparison of floats is the comparison of these rationals.
\<close>

type_synonym mtime = rat

text \<open>A \<open>Path\<close> is the list of its components: \<open>Path("data/css/a.css")\<close> is
  \<open>[''data'', ''css'', ''a.css'']\<close>.\<close>

type_synonym path = "string list"

text \<open>
  A file-system entry is a regular file, with its content and modification time, or a
  directory, with its modification time and the size \<open>stat\<close> reports for it.
\<close>

datatype node = File bytes mtime | Dir mtime nat

datatype error =
    ValueError | FileNotFoundError | IsADirectoryError | PermissionError | OSError
  | ZeroDivisionError

datatype open_mode = RB | WB

text \<open>
  The lines the script prints, with the values it formats into them:
  line 16 (the warning), line 45 (name, original size, compressed size, percentage),
  line 48 (number of files, bytes saved) and line 50.
\<close>

datatype message =
    Warn_data_dir_not_found
  | Compressed_line string int int rat
  | Summary_line nat int
  | All_already_compressed

text \<open>
  The world the script runs in: the file system as an association list from paths to
  entries (its order is the order in which the directory walk lists them), what has been
  printed, every \<open>open\<close> the script has attempted, and the number of clock readings taken
  so far.
\<close>

record world =
  files :: "(path \<times> node) list"
  stdout :: "message list"
  opened :: "(path \<times> open_mode) list"
  ticks :: nat

text \<open>
  I/O failures come from outside the script. They are given by an oracle that says, for
  each source file, whether opening it for reading fails, whether opening its artifact
  for writing fails, or whether the copy fails part-way, leaving the given bytes in the
  artifact.
\<close>

datatype fault = Read_open_fails | Write_open_fails | Copy_fails bytes

text \<open>
  What the script takes from its platform: the gzip encoder at \<open>compresslevel=9\<close> (its
  output depends on the file name and the time stored in the gzip header as well as on
  the data), the clock, and the fault oracle.
\<close>

record platform =
  compress :: "string \<Rightarrow> mtime \<Rightarrow> bytes \<Rightarrow> bytes"
  clock :: "nat \<Rightarrow> mtime"
  faults :: "path \<Rightarrow> fault option"

datatype outcome = Returned | Raised error

subsection \<open>\<open>pathlib\<close>: names and suffixes\<close>

definition name_of :: "path \<Rightarrow> string" where
  "name_of p = (if p = [] then [] else last p)"

text \<open>\<open>str.rfind\<close> for a single character; \<open>None\<close> stands for \<open>-1\<close>.\<close>

fun rfind :: "char \<Rightarrow> string \<Rightarrow> nat option" where
  "rfind c [] = None"
| "rfind c (x # xs) =
     (case rfind c xs of
        Some i \<Rightarrow> Some (Suc i)
      | None \<Rightarrow> if x = c then Some 0 else None)"

text \<open>
  \<open>PurePath.suffix\<close>, as pathlib has defined it from Python 3.4 on:
  \<^verbatim>\<open>
  name = self.name
  i = name.rfind('.')
  if 0 < i < len(name) - 1: return name[i:]
  else: return ''
  \<close>
\<close>

definition suffix_of :: "path \<Rightarrow> string" where
  "suffix_of p =
     (let name = name_of p in
      case rfind (CHR ''.'') name of
        None \<Rightarrow> []
      | Some i \<Rightarrow> if 0 < i \<and> int i < int (length name) - 1 then drop i name else [])"

text \<open>
  \<open>PurePath.with_suffix\<close>: it refuses a suffix that holds a separator, a non-empty suffix
  that does not start with a dot, the suffix \<open>'.'\<close> and a path with an empty name;
  otherwise it replaces the old suffix of the name, or appends when there is none.
\<close>

definition with_suffix :: "path \<Rightarrow> string \<Rightarrow> error + path" where
  "with_suffix p sfx =
     (if CHR ''/'' \<in> set sfx then Inl ValueError
      else if (sfx \<noteq> [] \<and> take 1 sfx \<noteq> ''.'') \<or> sfx = ''.'' then Inl ValueError
      else if name_of p = [] then Inl ValueError
      else
        let name = name_of p;
            old_suffix = suffix_of p;
            name' = (if old_suffix = [] then name @ sfx
                     else take (length name - length old_suffix) name @ sfx)
        in Inr (butlast p @ [name']))"

text \<open>\<open>str(path)\<close>: the components joined by the separator.\<close>

fun path_str :: "path \<Rightarrow> string" where
  "path_str [] = ''.''"
| "path_str [n] = n"
| "path_str (n # ns) = n @ ''/'' @ path_str ns"

subsection \<open>\<open>pathlib\<close>: the file system\<close>

definition lookup :: "world \<Rightarrow> path \<Rightarrow> node option" where
  "lookup w p = map_of (files w) p"

definition path_exists :: "world \<Rightarrow> path \<Rightarrow> bool" where
  "path_exists w p = (lookup w p \<noteq> None)"

definition is_file :: "world \<Rightarrow> path \<Rightarrow> bool" where
  "is_file w p = (case lookup w p of Some (File _ _) \<Rightarrow> True | _ \<Rightarrow> False)"

text \<open>\<open>Path.stat()\<close>, restricted to the two fields the script reads:
  \<open>(st_mtime, st_size)\<close>.\<close>

definition stat :: "world \<Rightarrow> path \<Rightarrow> error + (mtime \<times> int)" where
  "stat w p =
     (case lookup w p of
        None \<Rightarrow> Inl FileNotFoundError
      | Some (File c t) \<Rightarrow> Inr (t, int (length c))
      | Some (Dir t n) \<Rightarrow> Inr (t, int n))"

text \<open>
  \<open>Path.rglob("*")\<close>: every entry strictly below the directory, each once, files and
  directories alike and hidden ones included; nothing when the path is not a directory.
  The order is that of the listing, which pathlib leaves to the operating system. The
  walk is taken on the file system as it is when the loop starts; the only entries the
  loop adds are artifacts, which the test of line 26 rejects (lemma \<open>suffix_of_gz\<close>
  below).
\<close>

definition rglob :: "world \<Rightarrow> path \<Rightarrow> path list" where
  "rglob w dir =
     (case lookup w dir of
        Some (Dir _ _) \<Rightarrow> remdups (filter (strict_prefix dir) (map fst (files w)))
      | _ \<Rightarrow> [])"

definition print :: "message \<Rightarrow> world \<Rightarrow> world" where
  "print m w = w\<lparr>stdout := stdout w @ [m]\<rparr>"

subsection \<open>\<open>open\<close>, \<open>gzip.open\<close> and \<open>shutil.copyfileobj\<close>\<close>

text \<open>\<open>open(file_path, 'rb')\<close> (line 35).\<close>

definition open_rb :: "platform \<Rightarrow> path \<Rightarrow> world \<Rightarrow> world \<times> (error + unit)" where
  "open_rb pf file_path w =
     (let w1 = w\<lparr>opened := opened w @ [(file_path, RB)]\<rparr> in
      if faults pf file_path = Some Read_open_fails then (w1, Inl PermissionError)
      else case lookup w file_path of
             None \<Rightarrow> (w1, Inl FileNotFoundError)
           | Some (Dir _ _) \<Rightarrow> (w1, Inl IsADirectoryError)
           | Some (File _ _) \<Rightarrow> (w1, Inr ()))"

text \<open>Creating an entry in a directory advances the directory's modification time.\<close>

definition touch_dir :: "path \<Rightarrow> mtime \<Rightarrow> (path \<times> node) list \<Rightarrow> (path \<times> node) list" where
  "touch_dir d t fs =
     (case map_of fs d of
        Some (Dir _ n) \<Rightarrow> AList.update d (Dir t n) fs
      | _ \<Rightarrow> fs)"

text \<open>
  \<open>gzip.open(gz_path, 'wb', compresslevel=9)\<close> (line 36): a directory cannot be opened
  for writing; otherwise the file is created, or truncated when it exists.
\<close>

definition open_wb :: "platform \<Rightarrow> path \<Rightarrow> path \<Rightarrow> world \<Rightarrow> world \<times> (error + unit)" where
  "open_wb pf file_path gz_path w =
     (let w1 = w\<lparr>opened := opened w @ [(gz_path, WB)]\<rparr>;
          now = clock pf (ticks w)
      in case lookup w gz_path of
           Some (Dir _ _) \<Rightarrow> (w1, Inl IsADirectoryError)
         | Some (File _ _) \<Rightarrow>
             if faults pf file_path = Some Write_open_fails then (w1, Inl PermissionError)
             else (w1\<lparr>files := AList.update gz_path (File [] now) (files w),
                      ticks := ticks w + 1\<rparr>, Inr ())
         | None \<Rightarrow>
             if faults pf file_path = Some Write_open_fails then (w1, Inl PermissionError)
             else (w1\<lparr>files := AList.update gz_path (File [] now)
                                  (touch_dir (butlast gz_path) now (files w)),
                      ticks := ticks w + 1\<rparr>, Inr ()))"

text \<open>
  \<open>shutil.copyfileobj(f_in, f_out)\<close> and the end of the two \<open>with\<close> blocks (line 37):
  the source is read and its compression written to the artifact. When the copy fails
  the artifact keeps what had reached it.
\<close>

definition copy_and_close :: "platform \<Rightarrow> path \<Rightarrow> path \<Rightarrow> world \<Rightarrow> world \<times> (error + unit)" where
  "copy_and_close pf file_path gz_path w =
     (let now = clock pf (ticks w) in
      case lookup w file_path of
        Some (File content _) \<Rightarrow>
          (case faults pf file_path of
             Some (Copy_fails partial) \<Rightarrow>
               (w\<lparr>files := AList.update gz_path (File partial now) (files w),
                  ticks := ticks w + 1\<rparr>, Inl OSError)
           | _ \<Rightarrow>
               (w\<lparr>files := AList.update gz_path
                             (File (compress pf (name_of gz_path) now content) now) (files w),
                  ticks := ticks w + 1\<rparr>, Inr ()))
      | _ \<Rightarrow> (w, Inl OSError))"

text \<open>Lines 35 to 37 together. There is no \<open>try\<close>: the first failure ends the block.\<close>

definition compress_file :: "platform \<Rightarrow> path \<Rightarrow> path \<Rightarrow> world \<Rightarrow> world \<times> (error + unit)" where
  "compress_file pf file_path gz_path w =
     (case open_rb pf file_path w of
        (w1, Inl e) \<Rightarrow> (w1, Inl e)
      | (w1, Inr _) \<Rightarrow>
          (case open_wb pf file_path gz_path w1 of
             (w2, Inl e) \<Rightarrow> (w2, Inl e)
           | (w2, Inr _) \<Rightarrow> copy_and_close pf file_path gz_path w2))"

subsection \<open>The function\<close>

definition data_dir :: path where
  "data_dir = [''data'']"

definition extensions :: "string set" where
  "extensions = {''.html'', ''.css'', ''.js'', ''.json'', ''.svg'', ''.xml''}"

text \<open>Line 30: \<open>gz_path.exists() and gz_path.stat().st_mtime > file_path.stat().st_mtime\<close>.\<close>

definition gz_is_newer :: "world \<Rightarrow> path \<Rightarrow> path \<Rightarrow> error + bool" where
  "gz_is_newer w gz_path file_path =
     (if path_exists w gz_path then
        (case stat w gz_path of
           Inl e \<Rightarrow> Inl e
         | Inr g \<Rightarrow> (case stat w file_path of
                       Inl e \<Rightarrow> Inl e
                     | Inr f \<Rightarrow> Inr (fst g > fst f)))
      else Inr False)"

text \<open>Python's \<open>/\<close> on integers raises on a zero divisor. The model keeps the exact
  quotient, which the float of the source approximates.\<close>

definition truediv :: "int \<Rightarrow> int \<Rightarrow> error + rat" where
  "truediv a b = (if b = 0 then Inl ZeroDivisionError else Inr (of_int a / of_int b))"

text \<open>Line 44: \<open>(saved / original_size * 100) if original_size > 0 else 0\<close>.\<close>

definition percent_of :: "int \<Rightarrow> int \<Rightarrow> error + rat" where
  "percent_of saved original_size =
     (if original_size > 0 then
        (case truediv saved original_size of
           Inl e \<Rightarrow> Inl e
         | Inr q \<Rightarrow> Inr (q * 100))
      else Inr 0)"

text \<open>
  Lines 33 to 45, for a file that is not skipped. The pair of counters is
  \<open>(files_compressed, total_saved)\<close>.
\<close>

definition compress_and_report ::
    "platform \<Rightarrow> path \<Rightarrow> path \<Rightarrow> nat \<times> int \<Rightarrow> world \<Rightarrow> world \<times> (error + nat \<times> int)" where
  "compress_and_report pf file_path gz_path counters w =
     (case stat w file_path of
        Inl e \<Rightarrow> (w, Inl e)
      | Inr st \<Rightarrow>
          let original_size = snd st in
          (case compress_file pf file_path gz_path w of
             (w1, Inl e) \<Rightarrow> (w1, Inl e)
           | (w1, Inr _) \<Rightarrow>
               (case stat w1 gz_path of
                  Inl e \<Rightarrow> (w1, Inl e)
                | Inr gst \<Rightarrow>
                    let compressed_size = snd gst;
                        saved = original_size - compressed_size;
                        total_saved = snd counters + saved;
                        files_compressed = fst counters + 1
                    in (case percent_of saved original_size of
                          Inl e \<Rightarrow> (w1, Inl e)
                        | Inr percent \<Rightarrow>
                            (print (Compressed_line (name_of file_path) original_size
                                      compressed_size percent) w1,
                             Inr (files_compressed, total_saved))))))"

text \<open>The body of the \<open>for\<close> loop, lines 26 to 45.\<close>

definition process_file ::
    "platform \<Rightarrow> path \<Rightarrow> nat \<times> int \<Rightarrow> world \<Rightarrow> world \<times> (error + nat \<times> int)" where
  "process_file pf file_path counters w =
     (if is_file w file_path \<and> suffix_of file_path \<in> extensions then
        (case with_suffix file_path (suffix_of file_path @ ''.gz'') of
           Inl e \<Rightarrow> (w, Inl e)
         | Inr gz_path \<Rightarrow>
             (case gz_is_newer w gz_path file_path of
                Inl e \<Rightarrow> (w, Inl e)
              | Inr True \<Rightarrow> (w, Inr counters)
              | Inr False \<Rightarrow> compress_and_report pf file_path gz_path counters w))
      else (w, Inr counters))"

text \<open>The \<open>for\<close> loop over the walk, line 25. An exception leaves the loop at once.\<close>

fun loop :: "platform \<Rightarrow> path list \<Rightarrow> nat \<times> int \<Rightarrow> world \<Rightarrow> world \<times> (error + nat \<times> int)" where
  "loop pf [] counters w = (w, Inr counters)"
| "loop pf (file_path # rest) counters w =
     (case process_file pf file_path counters w of
        (w1, Inl e) \<Rightarrow> (w1, Inl e)
      | (w1, Inr counters1) \<Rightarrow> loop pf rest counters1 w1)"

text \<open>\<open>gzip_web_files\<close>, lines 11 to 50.\<close>

definition gzip_web_files :: "platform \<Rightarrow> world \<Rightarrow> world \<times> outcome" where
  "gzip_web_files pf w =
     (if \<not> path_exists w data_dir then (print Warn_data_dir_not_found w, Returned)
      else
        (case loop pf (rglob w data_dir) (0, 0) w of
           (w1, Inl e) \<Rightarrow> (w1, Raised e)
         | (w1, Inr (files_compressed, total_saved)) \<Rightarrow>
             if files_compressed > 0
             then (print (Summary_line files_compressed total_saved) w1, Returned)
             else (print All_already_compressed w1, Returned)))"

subsection \<open>Derived notions\<close>

text \<open>
  The artifact path of a source: \<open>.gz\<close> appended to the name. Lemma \<open>with_suffix_gz\<close>
  shows that line 27 computes it for every file that passes the test of line 26.
\<close>

definition gz_of :: "path \<Rightarrow> path" where
  "gz_of p = butlast p @ [name_of p @ ''.gz'']"

text \<open>
  The entry at a path, regardless of the modification time of a directory: creating an
  artifact advances the time of the directory that holds it, and nothing else of a
  directory ever changes.
\<close>

fun forget_dir_time :: "node \<Rightarrow> node" where
  "forget_dir_time (File c t) = File c t"
| "forget_dir_time (Dir t n) = Dir 0 n"

definition entry :: "world \<Rightarrow> path \<Rightarrow> node option" where
  "entry w p = map_option forget_dir_time (lookup w p)"

subsection \<open>Example platform and file systems\<close>

text \<open>
  A stand-in encoder (the two magic bytes of the gzip format, then the data) with its
  decoder, a platform on which the copy of \<open>data/e.js\<close> fails after one byte, and a
  tree that holds a stale artifact, a file of another type, a current artifact, an
  artifact as old as its source, and an empty source without artifact.
\<close>

definition example_platform :: platform where
  "example_platform =
     \<lparr>compress = (\<lambda>name tm content. 31 # 139 # content),
      clock = (\<lambda>n. 100 + of_nat n),
      faults = (\<lambda>_. None)\<rparr>"

definition example_decompress :: "bytes \<Rightarrow> bytes option" where
  "example_decompress z =
     (case z of
        a # b # content \<Rightarrow> if a = 31 \<and> b = 139 then Some content else None
      | _ \<Rightarrow> None)"

definition failing_platform :: platform where
  "failing_platform =
     example_platform\<lparr>faults :=
       (\<lambda>p. if p = [''data'', ''e.js''] then Some (Copy_fails [31]) else None)\<rparr>"

definition example_world :: world where
  "example_world =
     \<lparr>files =
        [([''data''], Dir 1 4096),
         ([''data'', ''css''], Dir 1 4096),
         ([''data'', ''css'', ''a.css''], File [1, 2, 3] 5),
         ([''data'', ''css'', ''a.css.gz''], File [9] 3),
         ([''data'', ''b.txt''], File [7] 2),
         ([''data'', ''c.html''], File [4, 5] 2),
         ([''data'', ''c.html.gz''], File [42] 4),
         ([''data'', ''d.json''], File [6] 7),
         ([''data'', ''d.json.gz''], File [8] 7),
         ([''data'', ''e.js''], File [] 2)],
      stdout = [], opened = [], ticks = 0\<rparr>"

definition empty_world :: world where
  "empty_world = \<lparr>files = [], stdout = [], opened = [], ticks = 0\<rparr>"

section \<open>Paths\<close>

lemma rfind_less: "rfind c xs = Some i \<Longrightarrow> i < length xs"
  by (induction xs arbitrary: i) (auto split: option.splits if_splits)

lemma rfind_append:
  "rfind c (xs @ ys) =
     (case rfind c ys of Some i \<Rightarrow> Some (length xs + i) | None \<Rightarrow> rfind c xs)"
  by (induction xs) (auto split: option.splits)

lemma empty_not_extension: "[] \<notin> extensions"
  by (simp add: extensions_def)

lemma suffix_of_cases:
  "suffix_of p = [] \<or>
   (\<exists>i. 0 < i \<and> i < length (name_of p) \<and> suffix_of p = drop i (name_of p))"
  by (auto simp: suffix_of_def Let_def split: option.splits dest: rfind_less)

lemma eligible_name:
  assumes "suffix_of p \<in> extensions"
  shows "p \<noteq> []" and "name_of p = last p"
    and "take (length (name_of p) - length (suffix_of p)) (name_of p) @ suffix_of p = name_of p"
proof -
  from assms have ne: "suffix_of p \<noteq> []" using empty_not_extension by auto
  then obtain i where i: "0 < i" "i < length (name_of p)" "suffix_of p = drop i (name_of p)"
    using suffix_of_cases[of p] by auto
  then have "name_of p \<noteq> []" by auto
  then show "p \<noteq> []" by (auto simp: name_of_def)
  then show "name_of p = last p" by (simp add: name_of_def)
  from i have "length (name_of p) - length (suffix_of p) = i" by simp
  then show "take (length (name_of p) - length (suffix_of p)) (name_of p) @ suffix_of p = name_of p"
    using i(3) by simp
qed

lemma extension_shape:
  assumes "s \<in> extensions"
  shows "CHR ''/'' \<notin> set (s @ ''.gz'')" and "take 1 (s @ ''.gz'') = ''.''" and "s @ ''.gz'' \<noteq> ''.''"
    and "s @ ''.gz'' \<noteq> []"
  using assms by (auto simp: extensions_def)

lemma with_suffix_gz:
  assumes "suffix_of p \<in> extensions"
  shows "with_suffix p (suffix_of p @ ''.gz'') = Inr (gz_of p)"
proof -
  note n = eligible_name[OF assms]
  have ne: "suffix_of p \<noteq> []" using assms empty_not_extension by auto
  have nn: "name_of p \<noteq> []" using n(3) ne by auto
  have "take (length (name_of p) - length (suffix_of p)) (name_of p) @ suffix_of p @ ''.gz''
        = name_of p @ ''.gz''"
    using n(3) by (metis append.assoc)
  then show ?thesis
    using extension_shape[OF assms] ne nn
    by (simp add: with_suffix_def gz_of_def Let_def del: append.simps)
qed

lemma suffix_of_gz: "suffix_of (gz_of p) \<notin> extensions"
proof -
  have nm: "name_of (gz_of p) = name_of p @ ''.gz''" by (simp add: gz_of_def name_of_def)
  have "rfind (CHR ''.'') (name_of p @ ''.gz'') = Some (length (name_of p))"
    by (simp add: rfind_append)
  then have "suffix_of (gz_of p) = [] \<or> suffix_of (gz_of p) = ''.gz''"
    by (simp add: suffix_of_def nm Let_def)
  then show ?thesis by (auto simp: extensions_def)
qed

lemma gz_of_inject:
  assumes "gz_of p = gz_of q" and "name_of q \<noteq> []"
  shows "p = q"
proof -
  from assms(1) have b: "butlast p = butlast q" and n: "name_of p = name_of q"
    by (simp_all add: gz_of_def)
  from assms(2) n have "p \<noteq> []" "q \<noteq> []" by (auto simp: name_of_def)
  with n have "last p = last q" by (simp add: name_of_def)
  with b \<open>p \<noteq> []\<close> \<open>q \<noteq> []\<close> show ?thesis
    by (metis append_butlast_last_id)
qed

lemma eligible_name_nonempty: "suffix_of p \<in> extensions \<Longrightarrow> name_of p \<noteq> []"
  using suffix_of_cases[of p] empty_not_extension by auto

lemma path_str_gz_of: "p \<noteq> [] \<Longrightarrow> path_str (gz_of p) = path_str p @ ''.gz''"
  unfolding gz_of_def name_of_def by (induction p rule: path_str.induct) auto

section \<open>The file system under \<open>open\<close> and \<open>copyfileobj\<close>\<close>

lemma entry_File: "entry w' x = entry w x \<Longrightarrow> lookup w x = Some (File c t) \<Longrightarrow> lookup w' x = Some (File c t)"
  by (cases "lookup w' x"; simp add: entry_def) (metis forget_dir_time.elims forget_dir_time.simps(1) node.distinct(1))

lemma entry_None: "entry w' x = entry w x \<Longrightarrow> lookup w x = None \<Longrightarrow> lookup w' x = None"
  by (simp add: entry_def)

lemma entry_is_file: "entry w' x = entry w x \<Longrightarrow> is_file w' x = is_file w x"
  unfolding entry_def is_file_def
  by (cases "lookup w' x"; cases "lookup w x"; simp split: node.splits)
     (metis forget_dir_time.simps node.distinct(1) node.exhaust)

lemma entry_exists: "entry w' x = entry w x \<Longrightarrow> path_exists w' x = path_exists w x"
  by (cases "lookup w' x"; cases "lookup w x"; simp add: entry_def path_exists_def)

lemma map_of_touch_dir:
  "map_option forget_dir_time (map_of (touch_dir d t fs) x) = map_option forget_dir_time (map_of fs x)"
  by (auto simp: touch_dir_def update_conv' split: option.splits node.splits)

lemma open_rb_effect:
  "open_rb pf p w = (w', r) \<Longrightarrow> files w' = files w \<and> stdout w' = stdout w \<and> ticks w' = ticks w
      \<and> opened w' = opened w @ [(p, RB)]"
  by (auto simp: open_rb_def Let_def split: if_splits option.splits node.splits)

lemma open_rb_ok:
  "lookup w p = Some (File c t) \<Longrightarrow> faults pf p \<noteq> Some Read_open_fails \<Longrightarrow>
   open_rb pf p w = (w\<lparr>opened := opened w @ [(p, RB)]\<rparr>, Inr ())"
  by (simp add: open_rb_def Let_def)

lemma open_wb_frame:
  "open_wb pf p gz w = (w', r) \<Longrightarrow> x \<noteq> gz \<Longrightarrow> entry w' x = entry w x"
  by (auto simp: open_wb_def Let_def entry_def lookup_def update_conv' map_of_touch_dir
           split: if_splits option.splits node.splits)

lemma open_wb_effect:
  "open_wb pf p gz w = (w', r) \<Longrightarrow> stdout w' = stdout w \<and> opened w' = opened w @ [(gz, WB)]"
  by (auto simp: open_wb_def Let_def split: if_splits option.splits node.splits)

lemma open_wb_dir:
  "lookup w gz = Some (Dir t n) \<Longrightarrow> open_wb pf p gz w = (w\<lparr>opened := opened w @ [(gz, WB)]\<rparr>, Inl IsADirectoryError)"
  by (simp add: open_wb_def Let_def)

lemma open_wb_Inr:
  "open_wb pf p gz w = (w', Inr u) \<Longrightarrow> \<exists>t. lookup w' gz = Some (File [] t)"
  by (auto simp: open_wb_def Let_def lookup_def update_conv' split: if_splits option.splits node.splits)

lemma copy_frame:
  "copy_and_close pf p gz w = (w', r) \<Longrightarrow> x \<noteq> gz \<Longrightarrow> lookup w' x = lookup w x"
  by (auto simp: copy_and_close_def Let_def lookup_def update_conv'
           split: if_splits option.splits node.splits fault.splits)

lemma copy_effect:
  "copy_and_close pf p gz w = (w', r) \<Longrightarrow> stdout w' = stdout w \<and> opened w' = opened w"
  by (auto simp: copy_and_close_def Let_def split: if_splits option.splits node.splits fault.splits)

lemma copy_Inr:
  "copy_and_close pf p gz w = (w', Inr u) \<Longrightarrow> lookup w p = Some (File c t) \<Longrightarrow>
   lookup w' gz = Some (File (compress pf (name_of gz) (clock pf (ticks w)) c) (clock pf (ticks w)))"
  by (auto simp: copy_and_close_def Let_def lookup_def update_conv'
           split: if_splits option.splits node.splits fault.splits)

lemma compress_file_frame:
  assumes "compress_file pf p gz w = (w', r)" and "x \<noteq> gz"
  shows "entry w' x = entry w x"
proof -
  obtain w1 r1 where o1: "open_rb pf p w = (w1, r1)" by fastforce
  have e1: "entry w1 x = entry w x"
    using open_rb_effect[OF o1] by (simp add: entry_def lookup_def)
  show ?thesis
  proof (cases r1)
    case (Inl e)
    with assms o1 e1 show ?thesis by (simp add: compress_file_def)
  next
    case (Inr u)
    obtain w2 r2 where o2: "open_wb pf p gz w1 = (w2, r2)" by fastforce
    have e2: "entry w2 x = entry w x"
      using open_wb_frame[OF o2 assms(2)] e1 by simp
    show ?thesis
    proof (cases r2)
      case (Inl e)
      with assms o1 o2 Inr e2 show ?thesis by (simp add: compress_file_def)
    next
      case r2: (Inr u2)
      with assms o1 o2 Inr have "copy_and_close pf p gz w2 = (w', r)"
        by (simp add: compress_file_def)
      from copy_frame[OF this assms(2)] e2 show ?thesis by (simp add: entry_def)
    qed
  qed
qed

lemma compress_file_effect:
  assumes "compress_file pf p gz w = (w', r)"
  shows "stdout w' = stdout w"
    and "opened w' = opened w @ [(p, RB)] \<or> opened w' = opened w @ [(p, RB), (gz, WB)]"
proof -
  obtain w1 r1 where o1: "open_rb pf p w = (w1, r1)" by fastforce
  obtain w2 r2 where o2: "open_wb pf p gz w1 = (w2, r2)" by fastforce
  obtain w3 r3 where o3: "copy_and_close pf p gz w2 = (w3, r3)" by fastforce
  note f = open_rb_effect[OF o1] open_wb_effect[OF o2] copy_effect[OF o3]
  from assms o1 o2 o3 have "w' = w1 \<or> w' = w2 \<or> w' = w3"
    by (auto simp: compress_file_def split: sum.splits)
  moreover from assms o1 o2 o3 have "w' = w1 \<Longrightarrow> opened w' = opened w @ [(p, RB)]"
    using f by simp
  ultimately show "stdout w' = stdout w"
    and "opened w' = opened w @ [(p, RB)] \<or> opened w' = opened w @ [(p, RB), (gz, WB)]"
    using f by auto
qed

lemma compress_file_dir:
  assumes "compress_file pf p gz w = (w', r)" and "lookup w gz = Some (Dir t n)"
  shows "lookup w' gz = Some (Dir t n)" and "\<exists>e. r = Inl e"
proof -
  obtain w1 r1 where o1: "open_rb pf p w = (w1, r1)" by fastforce
  have l1: "lookup w1 gz = Some (Dir t n)"
    using open_rb_effect[OF o1] assms(2) by (simp add: lookup_def)
  have o2: "open_wb pf p gz w1 = (w1\<lparr>opened := opened w1 @ [(gz, WB)]\<rparr>, Inl IsADirectoryError)"
    by (rule open_wb_dir[OF l1])
  from assms(1) o1 o2 have "(w' = w1 \<or> w' = w1\<lparr>opened := opened w1 @ [(gz, WB)]\<rparr>) \<and> (\<exists>e. r = Inl e)"
    by (auto simp: compress_file_def split: sum.splits)
  with l1 show "lookup w' gz = Some (Dir t n)" and "\<exists>e. r = Inl e"
    by (auto simp: lookup_def)
qed

lemma compress_file_Inr:
  assumes "compress_file pf p gz w = (w', Inr u)" and "lookup w p = Some (File c t)" and "gz \<noteq> p"
  shows "\<exists>k. lookup w' gz = Some (File (compress pf (name_of gz) (clock pf k) c) (clock pf k))"
proof -
  obtain w1 r1 where o1: "open_rb pf p w = (w1, r1)" by fastforce
  obtain w2 r2 where o2: "open_wb pf p gz w1 = (w2, r2)" by fastforce
  from assms(1) o1 o2 have c: "copy_and_close pf p gz w2 = (w', Inr u)"
    by (auto simp: compress_file_def split: sum.splits)
  have l1: "lookup w1 p = Some (File c t)"
    using open_rb_effect[OF o1] assms(2) by (simp add: lookup_def)
  have "p \<noteq> gz" using assms(3) by simp
  then have "entry w2 p = entry w1 p" by (rule open_wb_frame[OF o2])
  then have l2: "lookup w2 p = Some (File c t)" using l1 by (rule entry_File)
  show ?thesis by (rule exI) (rule copy_Inr[OF c l2])
qed

lemma open_wb_ok:
  assumes "faults pf p \<noteq> Some Write_open_fails" and "\<forall>t n. lookup w gz \<noteq> Some (Dir t n)"
  shows "\<exists>w2. open_wb pf p gz w = (w2, Inr ())"
proof (cases "lookup w gz")
  case None
  with assms show ?thesis by (simp add: open_wb_def Let_def)
next
  case (Some a)
  with assms obtain c t where "a = File c t" by (cases a) auto
  with Some assms show ?thesis by (simp add: open_wb_def Let_def)
qed

lemma compress_file_total:
  assumes "lookup w p = Some (File c t)" and "gz \<noteq> p" and "faults pf p = None"
    and "\<forall>t n. lookup w gz \<noteq> Some (Dir t n)"
  shows "\<exists>w'. compress_file pf p gz w = (w', Inr ())"
proof -
  let ?w1 = "w\<lparr>opened := opened w @ [(p, RB)]\<rparr>"
  have o1: "open_rb pf p w = (?w1, Inr ())"
    using assms by (simp add: open_rb_ok)
  have l1: "lookup ?w1 = lookup w" by (simp add: lookup_def fun_eq_iff)
  obtain w2 where o2: "open_wb pf p gz ?w1 = (w2, Inr ())"
    using open_wb_ok[of pf p ?w1 gz] assms(3,4) l1 by auto
  have "p \<noteq> gz" using assms(2) by simp
  then have "entry w2 p = entry ?w1 p" by (rule open_wb_frame[OF o2])
  moreover have "lookup ?w1 p = Some (File c t)"
    using assms(1) l1 by simp
  ultimately have "lookup w2 p = Some (File c t)"
    by (rule entry_File)
  then obtain w3 where "copy_and_close pf p gz w2 = (w3, Inr ())"
    using assms(3) by (simp add: copy_and_close_def Let_def)
  with o1 o2 show ?thesis by (simp add: compress_file_def)
qed

lemma open_rb_error:
  assumes "open_rb pf p w = (w', r)"
  shows "r \<noteq> Inl ZeroDivisionError"
proof (cases "faults pf p = Some Read_open_fails")
  case True
  with assms show ?thesis by (clarsimp simp: open_rb_def Let_def)
next
  case False
  show ?thesis
  proof (cases "lookup w p")
    case None
    with assms False show ?thesis by (clarsimp simp: open_rb_def Let_def)
  next
    case (Some a)
    with assms False show ?thesis by (cases a) (clarsimp simp: open_rb_def Let_def)+
  qed
qed

lemma open_wb_error:
  "open_wb pf p gz w = (w', r) \<Longrightarrow> r \<noteq> Inl ZeroDivisionError"
  by (auto simp: open_wb_def Let_def split: if_splits option.splits node.splits)

lemma copy_error:
  "copy_and_close pf p gz w = (w', r) \<Longrightarrow> r \<noteq> Inl ZeroDivisionError"
  by (auto simp: copy_and_close_def Let_def split: if_splits option.splits node.splits fault.splits)

lemma compress_file_no_zero_division:
  assumes "compress_file pf p gz w = (w', r)"
  shows "r \<noteq> Inl ZeroDivisionError"
proof -
  obtain w1 r1 where o1: "open_rb pf p w = (w1, r1)" by fastforce
  obtain w2 r2 where o2: "open_wb pf p gz w1 = (w2, r2)" by fastforce
  obtain w3 r3 where o3: "copy_and_close pf p gz w2 = (w3, r3)" by fastforce
  from assms o1 o2 o3 have "r = r1 \<or> r = r2 \<or> r = r3"
    by (auto simp: compress_file_def split: sum.splits)
  with open_rb_error[OF o1] open_wb_error[OF o2] copy_error[OF o3] show ?thesis by auto
qed

section \<open>Compressing one file\<close>

lemma lookup_print [simp]: "lookup (print m w) = lookup w"
  by (simp add: print_def lookup_def fun_eq_iff)

lemma entry_print [simp]: "entry (print m w) = entry w"
  by (simp add: entry_def fun_eq_iff)

lemma opened_print [simp]: "opened (print m w) = opened w"
  by (simp add: print_def)

lemma stdout_print [simp]: "stdout (print m w) = stdout w @ [m]"
  by (simp add: print_def)

lemma stat_File: "lookup w p = Some (File c t) \<Longrightarrow> stat w p = Inr (t, int (length c))"
  by (simp add: stat_def)

lemma stat_exists: "path_exists w p \<Longrightarrow> \<exists>st. stat w p = Inr st"
  by (auto simp: stat_def path_exists_def split: option.splits node.splits)

lemma stat_error: "stat w p \<noteq> Inl ZeroDivisionError"
  by (simp add: stat_def split: option.splits node.splits)

lemma percent_of_total: "\<exists>q. percent_of saved original_size = Inr q"
  by (simp add: percent_of_def truediv_def)

lemma percent_of_zero: "percent_of saved 0 = Inr 0"
  by (simp add: percent_of_def)

text \<open>The shape of every run of lines 33 to 45.\<close>

lemma compress_and_report_cases:
  assumes "compress_and_report pf p gz cs w = (w', r)"
  obtains
    (stat_fails) e where "stat w p = Inl e" "w' = w" "r = Inl e"
  | (compress_fails) st e where "stat w p = Inr st" "compress_file pf p gz w = (w', Inl e)" "r = Inl e"
  | (stat_gz_fails) st w1 u e where "stat w p = Inr st" "compress_file pf p gz w = (w1, Inr u)"
      "stat w1 gz = Inl e" "w' = w1" "r = Inl e"
  | (reported) st w1 u gst pct where "stat w p = Inr st" "compress_file pf p gz w = (w1, Inr u)"
      "stat w1 gz = Inr gst" "percent_of (snd st - snd gst) (snd st) = Inr pct"
      "w' = print (Compressed_line (name_of p) (snd st) (snd gst) pct) w1"
      "r = Inr (fst cs + 1, snd cs + (snd st - snd gst))"
proof (cases "stat w p")
  case (Inl e)
  with assms have "w' = w" and "r = Inl e"
    by (simp_all add: compress_and_report_def)
  with Inl show ?thesis by (rule stat_fails)
next
  case st: (Inr st)
  obtain w1 r1 where c: "compress_file pf p gz w = (w1, r1)" by fastforce
  show ?thesis
  proof (cases r1)
    case (Inl e)
    with assms st c have "w' = w1" and "r = Inl e"
      by (simp_all add: compress_and_report_def)
    with st c Inl show ?thesis by (simp add: compress_fails)
  next
    case u: (Inr u)
    show ?thesis
    proof (cases "stat w1 gz")
      case (Inl e)
      with assms st c u have "w' = w1" and "r = Inl e"
        by (simp_all add: compress_and_report_def)
      with st c u Inl show ?thesis by (simp add: stat_gz_fails)
    next
      case gst: (Inr gst)
      obtain pct where pct: "percent_of (snd st - snd gst) (snd st) = Inr pct"
        using percent_of_total by blast
      with assms st c u gst have res: "w' = print (Compressed_line (name_of p) (snd st) (snd gst) pct) w1"
        "r = Inr (fst cs + 1, snd cs + (snd st - snd gst))"
        by (simp_all add: compress_and_report_def Let_def)
      have cu: "compress_file pf p gz w = (w1, Inr u)" using c u by simp
      show ?thesis by (rule reported[OF st cu gst pct res])
    qed
  qed
qed

lemma compress_and_report_frame:
  assumes "compress_and_report pf p gz cs w = (w', r)" and "x \<noteq> gz"
  shows "entry w' x = entry w x"
  using assms(1)
proof (cases rule: compress_and_report_cases)
  case stat_fails then show ?thesis by simp
next
  case compress_fails then show ?thesis using compress_file_frame assms(2) by blast
next
  case stat_gz_fails then show ?thesis using compress_file_frame assms(2) by blast
next
  case reported then show ?thesis using compress_file_frame[OF reported(2) assms(2)] by simp
qed

lemma compress_and_report_opened:
  assumes "compress_and_report pf p gz cs w = (w', r)"
  shows "\<exists>ops. opened w' = opened w @ ops \<and> set ops \<subseteq> {(p, RB), (gz, WB)}"
  using assms
proof (cases rule: compress_and_report_cases)
  case stat_fails then show ?thesis by simp
next
  case compress_fails then show ?thesis using compress_file_effect(2) by fastforce
next
  case stat_gz_fails then show ?thesis using compress_file_effect(2) by fastforce
next
  case reported then show ?thesis using compress_file_effect(2)[OF reported(2)] by fastforce
qed

lemma compress_and_report_dir:
  assumes "compress_and_report pf p gz cs w = (w', r)" and "lookup w gz = Some (Dir t n)"
  shows "lookup w' gz = Some (Dir t n) \<and> (\<exists>e. r = Inl e)"
  using assms(1)
proof (cases rule: compress_and_report_cases)
  case stat_fails
  with assms(2) show ?thesis by simp
next
  case compress_fails
  with compress_file_dir(1)[OF compress_fails(2) assms(2)] show ?thesis by simp
next
  case stat_gz_fails
  with compress_file_dir(2)[OF stat_gz_fails(2) assms(2)] show ?thesis by simp
next
  case reported
  with compress_file_dir(2)[OF reported(2) assms(2)] show ?thesis by simp
qed

lemma is_file_iff: "is_file w p \<longleftrightarrow> (\<exists>c t. lookup w p = Some (File c t))"
  by (auto simp: is_file_def split: option.splits node.splits)

lemma gz_is_newer_File:
  assumes "lookup w p = Some (File c t)"
  shows "gz_is_newer w gz p =
           Inr (case lookup w gz of None \<Rightarrow> False | Some (File _ tz) \<Rightarrow> tz > t | Some (Dir tz _) \<Rightarrow> tz > t)"
  using assms
  by (simp add: gz_is_newer_def path_exists_def stat_def split: option.splits node.splits)

lemma process_file_cases:
  assumes "process_file pf p cs w = (w', r)"
  obtains
    (ineligible) "\<not> (is_file w p \<and> suffix_of p \<in> extensions)" "w' = w" "r = Inr cs"
  | (skipped) "is_file w p" "suffix_of p \<in> extensions" "gz_is_newer w (gz_of p) p = Inr True"
      "w' = w" "r = Inr cs"
  | (compressed) "is_file w p" "suffix_of p \<in> extensions" "gz_is_newer w (gz_of p) p = Inr False"
      "compress_and_report pf p (gz_of p) cs w = (w', r)"
proof (cases "is_file w p \<and> suffix_of p \<in> extensions")
  case False
  with assms have "w' = w" and "r = Inr cs" by (simp_all add: process_file_def)
  with False show ?thesis by (rule ineligible)
next
  case True
  then have f: "is_file w p" and s: "suffix_of p \<in> extensions" by simp_all
  from f obtain c t where l: "lookup w p = Some (File c t)" by (auto simp: is_file_iff)
  from gz_is_newer_File[OF l] obtain b where n: "gz_is_newer w (gz_of p) p = Inr b" by blast
  show ?thesis
  proof (cases b)
    case True
    with assms f s n have "w' = w" and "r = Inr cs"
      by (simp_all add: process_file_def with_suffix_gz)
    with f s n True show ?thesis by (simp add: skipped)
  next
    case False
    with assms f s n have "compress_and_report pf p (gz_of p) cs w = (w', r)"
      by (simp add: process_file_def with_suffix_gz)
    with f s n False show ?thesis by (simp add: compressed)
  qed
qed

lemma process_file_frame:
  assumes "process_file pf q cs w = (w', r)"
  shows "entry w' x = entry w x \<or>
         (x = gz_of q \<and> is_file w q \<and> suffix_of q \<in> extensions \<and>
          gz_is_newer w (gz_of q) q = Inr False)"
  using assms
proof (cases rule: process_file_cases)
  case ineligible then show ?thesis by simp
next
  case skipped then show ?thesis by simp
next
  case compressed
  show ?thesis
  proof (cases "x = gz_of q")
    case True with compressed show ?thesis by simp
  next
    case False
    from compress_and_report_frame[OF compressed(4) False] show ?thesis by simp
  qed
qed

lemma process_file_opened:
  assumes "process_file pf q cs w = (w', r)"
  shows "\<exists>ops. opened w' = opened w @ ops \<and> set ops \<subseteq> {(q, RB), (gz_of q, WB)} \<and>
           (ops \<noteq> [] \<longrightarrow> is_file w q \<and> suffix_of q \<in> extensions \<and>
              gz_is_newer w (gz_of q) q = Inr False)"
  using assms
proof (cases rule: process_file_cases)
  case ineligible then show ?thesis by simp
next
  case skipped then show ?thesis by simp
next
  case compressed
  from compress_and_report_opened[OF compressed(4)] obtain ops
    where "opened w' = opened w @ ops" "set ops \<subseteq> {(q, RB), (gz_of q, WB)}" by blast
  with compressed(1,2,3) show ?thesis by blast
qed

section \<open>The loop\<close>

lemma gz_of_neq_source: "suffix_of p \<in> extensions \<Longrightarrow> gz_of q \<noteq> p"
  using suffix_of_gz[of q] by auto

lemma gz_of_eq_iff:
  assumes "suffix_of q \<in> extensions"
  shows "gz_of p = gz_of q \<longleftrightarrow> p = q"
  using gz_of_inject[of p q] eligible_name_nonempty[OF assms(1)] by auto

lemma process_file_source_kept:
  assumes "process_file pf q cs w = (w', r)" and "suffix_of x \<in> extensions"
  shows "entry w' x = entry w x"
  using process_file_frame[OF assms(1), of x] gz_of_neq_source[OF assms(2), of q] by auto

lemma loop_Cons_cases:
  assumes "loop pf (q # qs) cs w = (w', r)"
  obtains
    (raised) e where "process_file pf q cs w = (w', Inl e)" "r = Inl e"
  | (continued) w1 cs1 where "process_file pf q cs w = (w1, Inr cs1)" "loop pf qs cs1 w1 = (w', r)"
proof -
  obtain w1 r1 where p: "process_file pf q cs w = (w1, r1)" by fastforce
  show ?thesis
  proof (cases r1)
    case (Inl e)
    with assms p have "w' = w1" and "r = Inl e" by simp_all
    with p Inl show ?thesis by (simp add: raised)
  next
    case (Inr cs1)
    with assms p have "loop pf qs cs1 w1 = (w', r)" by simp
    with p Inr show ?thesis by (simp add: continued)
  qed
qed

lemma loop_source_kept:
  assumes "loop pf qs cs w = (w', r)" and "suffix_of x \<in> extensions"
  shows "entry w' x = entry w x"
  using assms(1)
proof (induction qs arbitrary: cs w)
  case Nil
  then show ?case by simp
next
  case (Cons q qs)
  from Cons.prems show ?case
  proof (cases rule: loop_Cons_cases)
    case (raised e)
    then show ?thesis using process_file_source_kept assms(2) by blast
  next
    case (continued w1 cs1)
    from Cons.IH[OF continued(2)] process_file_source_kept[OF continued(1) assms(2)]
    show ?thesis by simp
  qed
qed

lemma loop_frame:
  assumes "loop pf qs cs w = (w', r)"
  shows "entry w' x = entry w x \<or>
         (\<exists>q\<in>set qs. x = gz_of q \<and> is_file w q \<and> suffix_of q \<in> extensions)"
  using assms
proof (induction qs arbitrary: cs w)
  case Nil
  then show ?case by simp
next
  case (Cons q qs)
  from Cons.prems show ?case
  proof (cases rule: loop_Cons_cases)
    case (raised e)
    from process_file_frame[OF raised(1), of x] show ?thesis by auto
  next
    case (continued w1 cs1)
    from Cons.IH[OF continued(2)] consider
      (same) "entry w' x = entry w1 x"
    | (written) q' where "q' \<in> set qs" "x = gz_of q'" "is_file w1 q'" "suffix_of q' \<in> extensions"
      by blast
    then show ?thesis
    proof cases
      case same
      with process_file_frame[OF continued(1), of x] show ?thesis by auto
    next
      case written
      from entry_is_file[OF process_file_source_kept[OF continued(1) written(4)]] written(3)
      have "is_file w q'" by simp
      with written show ?thesis by auto
    qed
  qed
qed

lemma loop_opened:
  assumes "loop pf qs cs w = (w', r)"
  shows "\<exists>ops. opened w' = opened w @ ops \<and>
           (\<forall>x\<in>set ops. \<exists>q\<in>set qs. is_file w q \<and> suffix_of q \<in> extensions \<and>
               (x = (q, RB) \<or> x = (gz_of q, WB)))"
  using assms
proof (induction qs arbitrary: cs w)
  case Nil
  then show ?case by simp
next
  case (Cons q qs)
  have step: "\<exists>ops. opened w1 = opened w @ ops \<and>
           (\<forall>x\<in>set ops. is_file w q \<and> suffix_of q \<in> extensions \<and>
               (x = (q, RB) \<or> x = (gz_of q, WB)))"
    if "process_file pf q cs w = (w1, r1)" for w1 r1
  proof -
    from process_file_opened[OF that] obtain ops where
      o: "opened w1 = opened w @ ops" "set ops \<subseteq> {(q, RB), (gz_of q, WB)}"
         "ops \<noteq> [] \<longrightarrow> is_file w q \<and> suffix_of q \<in> extensions" by blast
    then have "\<forall>x\<in>set ops. is_file w q \<and> suffix_of q \<in> extensions \<and>
               (x = (q, RB) \<or> x = (gz_of q, WB))" by auto
    with o(1) show ?thesis by blast
  qed
  from Cons.prems show ?case
  proof (cases rule: loop_Cons_cases)
    case (raised e)
    from step[OF raised(1)] show ?thesis by auto
  next
    case (continued w1 cs1)
    from step[OF continued(1)] obtain ops1 where
      o1: "opened w1 = opened w @ ops1"
          "\<forall>x\<in>set ops1. is_file w q \<and> suffix_of q \<in> extensions \<and>
               (x = (q, RB) \<or> x = (gz_of q, WB))" by blast
    from Cons.IH[OF continued(2)] obtain ops2 where
      o2: "opened w' = opened w1 @ ops2"
          "\<forall>x\<in>set ops2. \<exists>q'\<in>set qs. is_file w1 q' \<and> suffix_of q' \<in> extensions \<and>
               (x = (q', RB) \<or> x = (gz_of q', WB))" by blast
    have "\<forall>x\<in>set ops2. \<exists>q'\<in>set qs. is_file w q' \<and> suffix_of q' \<in> extensions \<and>
               (x = (q', RB) \<or> x = (gz_of q', WB))"
    proof
      fix x assume "x \<in> set ops2"
      with o2(2) obtain q' where q': "q' \<in> set qs" "is_file w1 q'" "suffix_of q' \<in> extensions"
        "x = (q', RB) \<or> x = (gz_of q', WB)" by blast
      from entry_is_file[OF process_file_source_kept[OF continued(1) q'(3)]] q'(2)
      have "is_file w q'" by simp
      with q' show "\<exists>q'\<in>set qs. is_file w q' \<and> suffix_of q' \<in> extensions \<and>
               (x = (q', RB) \<or> x = (gz_of q', WB))" by blast
    qed
    with o1 o2(1) have "opened w' = opened w @ (ops1 @ ops2) \<and>
           (\<forall>x\<in>set (ops1 @ ops2). \<exists>q'\<in>set (q # qs). is_file w q' \<and> suffix_of q' \<in> extensions \<and>
               (x = (q', RB) \<or> x = (gz_of q', WB)))"
      by auto
    then show ?thesis by blast
  qed
qed

lemma loop_append:
  "loop pf (xs @ ys) cs w =
     (case loop pf xs cs w of
        (w1, Inl e) \<Rightarrow> (w1, Inl e)
      | (w1, Inr cs1) \<Rightarrow> loop pf ys cs1 w1)"
  by (induction xs arbitrary: cs w) (auto split: prod.splits sum.splits)

lemma compress_file_Inr_opened:
  assumes "compress_file pf p gz w = (w', Inr u)"
  shows "opened w' = opened w @ [(p, RB), (gz, WB)]"
proof -
  obtain w1 r1 where o1: "open_rb pf p w = (w1, r1)" by fastforce
  obtain w2 r2 where o2: "open_wb pf p gz w1 = (w2, r2)" by fastforce
  from assms(1) o1 o2 have c: "copy_and_close pf p gz w2 = (w', Inr u)"
    by (auto simp: compress_file_def split: sum.splits)
  from open_rb_effect[OF o1] open_wb_effect[OF o2] copy_effect[OF c] show ?thesis by simp
qed

text \<open>A source whose artifact is a newer regular file is left alone, and so is the artifact.\<close>

lemma fresh_is_newer:
  assumes "lookup w p = Some (File c t)" and "lookup w (gz_of p) = Some (File z tz)" and "tz > t"
  shows "gz_is_newer w (gz_of p) p = Inr True"
  using gz_is_newer_File[OF assms(1), of "gz_of p"] assms(2,3) by simp

lemma process_file_keeps_fresh:
  assumes run: "process_file pf q cs w = (w', r)"
    and src: "lookup w p = Some (File c t)" and ext: "suffix_of p \<in> extensions"
    and art: "lookup w (gz_of p) = Some (File z tz)" and newer: "tz > t"
  shows "lookup w' p = Some (File c t)"
    and "lookup w' (gz_of p) = Some (File z tz)"
    and "\<exists>ops. opened w' = opened w @ ops \<and> (p, RB) \<notin> set ops \<and> (gz_of p, WB) \<notin> set ops"
proof -
  note fresh = fresh_is_newer[OF src art newer]
  have not_written: "\<not> (q = p \<and> gz_is_newer w (gz_of q) q = Inr False)"
    using fresh by auto
  from process_file_source_kept[OF run ext] src
  show "lookup w' p = Some (File c t)" by (rule entry_File)
  have "entry w' (gz_of p) = entry w (gz_of p)"
  proof -
    from process_file_frame[OF run, of "gz_of p"] consider
      "entry w' (gz_of p) = entry w (gz_of p)"
    | "gz_of p = gz_of q" "suffix_of q \<in> extensions" "gz_is_newer w (gz_of q) q = Inr False"
      by blast
    then show ?thesis
    proof cases
      case 1 then show ?thesis .
    next
      case 2
      from 2(1) gz_of_eq_iff[OF 2(2)] have "q = p" by simp
      with 2(3) not_written show ?thesis by simp
    qed
  qed
  then show "lookup w' (gz_of p) = Some (File z tz)" using art by (rule entry_File)
  from process_file_opened[OF run] obtain ops where
    o: "opened w' = opened w @ ops" "set ops \<subseteq> {(q, RB), (gz_of q, WB)}"
       "ops \<noteq> [] \<longrightarrow> suffix_of q \<in> extensions \<and> gz_is_newer w (gz_of q) q = Inr False"
    by blast
  have "(p, RB) \<notin> set ops"
  proof
    assume a: "(p, RB) \<in> set ops"
    with o(2) have "q = p" by auto
    moreover from a o(3) have "gz_is_newer w (gz_of q) q = Inr False" by auto
    ultimately show False using not_written by simp
  qed
  moreover have "(gz_of p, WB) \<notin> set ops"
  proof
    assume a: "(gz_of p, WB) \<in> set ops"
    with o(2) have "gz_of p = gz_of q" by auto
    moreover from a o(3) have e: "suffix_of q \<in> extensions" "gz_is_newer w (gz_of q) q = Inr False"
      by auto
    ultimately have "q = p" using gz_of_eq_iff[OF e(1)] by simp
    with e(2) not_written show False by simp
  qed
  ultimately show "\<exists>ops. opened w' = opened w @ ops \<and> (p, RB) \<notin> set ops \<and> (gz_of p, WB) \<notin> set ops"
    using o(1) by blast
qed

lemma loop_keeps_fresh:
  assumes "loop pf qs cs w = (w', r)"
    and "lookup w p = Some (File c t)" and ext: "suffix_of p \<in> extensions"
    and "lookup w (gz_of p) = Some (File z tz)" and newer: "tz > t"
  shows "lookup w' p = Some (File c t) \<and> lookup w' (gz_of p) = Some (File z tz) \<and>
         (\<exists>ops. opened w' = opened w @ ops \<and> (p, RB) \<notin> set ops \<and> (gz_of p, WB) \<notin> set ops)"
  using assms(1,2,4)
proof (induction qs arbitrary: cs w)
  case Nil
  then show ?case by simp
next
  case (Cons q qs)
  from Cons.prems(1) show ?case
  proof (cases rule: loop_Cons_cases)
    case (raised e)
    from process_file_keeps_fresh[OF raised(1) Cons.prems(2) ext Cons.prems(3) newer]
    show ?thesis by simp
  next
    case (continued w1 cs1)
    note s = process_file_keeps_fresh[OF continued(1) Cons.prems(2) ext Cons.prems(3) newer]
    from s(3) obtain ops1 where
      o1: "opened w1 = opened w @ ops1" "(p, RB) \<notin> set ops1" "(gz_of p, WB) \<notin> set ops1" by blast
    from Cons.IH[OF continued(2) s(1) s(2)] obtain ops2 where
      k: "lookup w' p = Some (File c t)" "lookup w' (gz_of p) = Some (File z tz)"
      and o2: "opened w' = opened w1 @ ops2" "(p, RB) \<notin> set ops2" "(gz_of p, WB) \<notin> set ops2"
      by blast
    from o1 o2 have "opened w' = opened w @ (ops1 @ ops2) \<and> (p, RB) \<notin> set (ops1 @ ops2) \<and>
        (gz_of p, WB) \<notin> set (ops1 @ ops2)" by simp
    with k show ?thesis by blast
  qed
qed

lemma is_file_File: "lookup w p = Some (File c t) \<Longrightarrow> is_file w p"
  by (simp add: is_file_def)

text \<open>A source that is not skipped: what a normal return of the loop body has done.\<close>

lemma process_file_regenerates:
  assumes run: "process_file pf p cs w = (w', Inr cs')"
    and src: "lookup w p = Some (File c t)" and ext: "suffix_of p \<in> extensions"
    and stale: "gz_is_newer w (gz_of p) p = Inr False"
  shows "\<exists>k pct. lookup w' (gz_of p) =
            Some (File (compress pf (name_of (gz_of p)) (clock pf k) c) (clock pf k)) \<and>
          percent_of (int (length c) -
              int (length (compress pf (name_of (gz_of p)) (clock pf k) c))) (int (length c)) = Inr pct \<and>
          stdout w' = stdout w @
            [Compressed_line (name_of p) (int (length c))
               (int (length (compress pf (name_of (gz_of p)) (clock pf k) c))) pct]"
    and "lookup w' p = Some (File c t)"
    and "opened w' = opened w @ [(p, RB), (gz_of p, WB)]"
proof -
  have neq: "gz_of p \<noteq> p" using gz_of_neq_source[OF ext] .
  from run have car: "compress_and_report pf p (gz_of p) cs w = (w', Inr cs')"
  proof (cases rule: process_file_cases)
    case ineligible with is_file_File[OF src] ext show ?thesis by simp
  next
    case skipped with stale show ?thesis by simp
  next
    case compressed then show ?thesis by simp
  qed
  have "p \<noteq> gz_of p" using neq by simp
  from compress_and_report_frame[OF car this] src
  show "lookup w' p = Some (File c t)" by (rule entry_File)
  from car obtain st w1 u gst pct where
    r: "stat w p = Inr st" "compress_file pf p (gz_of p) w = (w1, Inr u)"
       "stat w1 (gz_of p) = Inr gst" "percent_of (snd st - snd gst) (snd st) = Inr pct"
       "w' = print (Compressed_line (name_of p) (snd st) (snd gst) pct) w1"
    by (cases rule: compress_and_report_cases) simp_all
  from compress_file_Inr_opened[OF r(2)] r(5)
  show "opened w' = opened w @ [(p, RB), (gz_of p, WB)]" by simp
  from compress_file_Inr[OF r(2) src neq] obtain k where
    k: "lookup w1 (gz_of p) = Some (File (compress pf (name_of (gz_of p)) (clock pf k) c) (clock pf k))"
    by blast
  let ?z = "compress pf (name_of (gz_of p)) (clock pf k) c"
  from r(1) src have st: "snd st = int (length c)" by (auto simp: stat_def)
  from r(3) k have gst: "snd gst = int (length ?z)" by (auto simp: stat_def)
  from compress_file_effect(1)[OF r(2)] r(5)
  have "stdout w' = stdout w @ [Compressed_line (name_of p) (snd st) (snd gst) pct]" by simp
  with st gst have "stdout w' = stdout w @
            [Compressed_line (name_of p) (int (length c)) (int (length ?z)) pct]" by simp
  moreover from st gst r(4)
  have "percent_of (int (length c) - int (length ?z)) (int (length c)) = Inr pct" by simp
  moreover from k r(5) have "lookup w' (gz_of p) = Some (File ?z (clock pf k))" by simp
  ultimately show "\<exists>k pct. lookup w' (gz_of p) =
            Some (File (compress pf (name_of (gz_of p)) (clock pf k) c) (clock pf k)) \<and>
          percent_of (int (length c) -
              int (length (compress pf (name_of (gz_of p)) (clock pf k) c))) (int (length c)) = Inr pct \<and>
          stdout w' = stdout w @
            [Compressed_line (name_of p) (int (length c))
               (int (length (compress pf (name_of (gz_of p)) (clock pf k) c))) pct]"
    by (intro exI[of _ k] exI[of _ pct] conjI)
qed

text \<open>While another file is handled, a source and its artifact path stay as they are,
  unless the artifact path is a directory.\<close>

lemma process_file_other:
  assumes run: "process_file pf q cs w = (w', r)" and other: "q \<noteq> p"
    and src: "lookup w p = Some (File c t)" and ext: "suffix_of p \<in> extensions"
    and nodir: "\<forall>t n. lookup w (gz_of p) \<noteq> Some (Dir t n)"
  shows "lookup w' p = Some (File c t)" and "lookup w' (gz_of p) = lookup w (gz_of p)"
proof -
  from process_file_source_kept[OF run ext] src
  show "lookup w' p = Some (File c t)" by (rule entry_File)
  have e: "entry w' (gz_of p) = entry w (gz_of p)"
  proof -
    from process_file_frame[OF run, of "gz_of p"] consider
      "entry w' (gz_of p) = entry w (gz_of p)"
    | "gz_of p = gz_of q" "suffix_of q \<in> extensions"
      by blast
    then show ?thesis
    proof cases
      case 1 then show ?thesis .
    next
      case 2
      with gz_of_eq_iff[OF 2(2)] other show ?thesis by simp
    qed
  qed
  show "lookup w' (gz_of p) = lookup w (gz_of p)"
  proof (cases "lookup w (gz_of p)")
    case None
    with entry_None[OF e] show ?thesis by simp
  next
    case (Some a)
    with nodir obtain z tz where "a = File z tz" by (cases a) auto
    with Some entry_File[OF e] show ?thesis by simp
  qed
qed

lemma gz_is_newer_cong:
  assumes "lookup w' p = lookup w p" and "lookup w' gz = lookup w gz"
  shows "gz_is_newer w' gz p = gz_is_newer w gz p"
proof -
  from assms have "stat w' p = stat w p" and "stat w' gz = stat w gz"
    and "path_exists w' gz = path_exists w gz"
    by (simp_all add: path_exists_def stat_def)
  then show ?thesis by (simp add: gz_is_newer_def split: sum.splits)
qed

lemma loop_keeps_artifact:
  assumes run: "loop pf qs cs w = (w', r)" and "p \<notin> set qs"
    and ext: "suffix_of p \<in> extensions"
    and art: "lookup w (gz_of p) = Some (File z tz)"
  shows "lookup w' (gz_of p) = Some (File z tz)"
proof -
  from loop_frame[OF run, of "gz_of p"] consider
    "entry w' (gz_of p) = entry w (gz_of p)"
  | q where "q \<in> set qs" "gz_of p = gz_of q" "suffix_of q \<in> extensions"
    by blast
  then show ?thesis
  proof cases
    case 1 then show ?thesis using art by (rule entry_File)
  next
    case 2
    with gz_of_eq_iff[OF 2(3)] assms(2) show ?thesis by simp
  qed
qed

lemma process_file_stdout:
  assumes "process_file pf q cs w = (w', r)"
  shows "\<exists>ms. stdout w' = stdout w @ ms"
  using assms
proof (cases rule: process_file_cases)
  case ineligible then show ?thesis by simp
next
  case skipped then show ?thesis by simp
next
  case compressed
  from compressed(4) show ?thesis
  proof (cases rule: compress_and_report_cases)
    case stat_fails then show ?thesis by simp
  next
    case compress_fails with compress_file_effect(1)[OF compress_fails(2)] show ?thesis by simp
  next
    case stat_gz_fails with compress_file_effect(1)[OF stat_gz_fails(2)] show ?thesis by simp
  next
    case reported with compress_file_effect(1)[OF reported(2)] show ?thesis by simp
  qed
qed

lemma loop_stdout:
  assumes "loop pf qs cs w = (w', r)"
  shows "\<exists>ms. stdout w' = stdout w @ ms"
  using assms
proof (induction qs arbitrary: cs w)
  case Nil
  then show ?case by simp
next
  case (Cons q qs)
  from Cons.prems show ?case
  proof (cases rule: loop_Cons_cases)
    case (raised e)
    then show ?thesis using process_file_stdout by blast
  next
    case (continued w1 cs1)
    from process_file_stdout[OF continued(1)] Cons.IH[OF continued(2)] show ?thesis by auto
  qed
qed

lemma loop_opened_prefix:
  assumes "loop pf qs cs w = (w', r)"
  shows "\<exists>ops. opened w' = opened w @ ops"
  using loop_opened[OF assms] by blast

lemma loop_regenerates:
  assumes "loop pf qs cs w = (w', Inr cs')" and "p \<in> set qs" and "distinct qs"
    and "lookup w p = Some (File c t)" and ext: "suffix_of p \<in> extensions"
    and "gz_is_newer w (gz_of p) p = Inr False"
    and "\<forall>t n. lookup w (gz_of p) \<noteq> Some (Dir t n)"
  shows "\<exists>k pct ops.
           lookup w' (gz_of p) =
             Some (File (compress pf (name_of (gz_of p)) (clock pf k) c) (clock pf k)) \<and>
           percent_of (int (length c) -
              int (length (compress pf (name_of (gz_of p)) (clock pf k) c))) (int (length c)) = Inr pct \<and>
           Compressed_line (name_of p) (int (length c))
              (int (length (compress pf (name_of (gz_of p)) (clock pf k) c))) pct \<in> set (stdout w') \<and>
           lookup w' p = Some (File c t) \<and>
           opened w' = opened w @ ops \<and> (p, RB) \<in> set ops \<and> (gz_of p, WB) \<in> set ops"
  using assms(1,2,3,4,6,7)
proof (induction qs arbitrary: cs w)
  case Nil
  then show ?case by simp
next
  case (Cons q qs)
  from Cons.prems(1) obtain w1 cs1 where
    step: "process_file pf q cs w = (w1, Inr cs1)" and rest: "loop pf qs cs1 w1 = (w', Inr cs')"
    by (cases rule: loop_Cons_cases) simp_all
  show ?case
  proof (cases "q = p")
    case True
    with Cons.prems(3) have notin: "p \<notin> set qs" by simp
    note r = process_file_regenerates[OF step[unfolded True] Cons.prems(4) ext Cons.prems(5)]
    from r(1) obtain k pct where
      k: "lookup w1 (gz_of p) = Some (File (compress pf (name_of (gz_of p)) (clock pf k) c) (clock pf k))"
      and pct: "percent_of (int (length c) -
              int (length (compress pf (name_of (gz_of p)) (clock pf k) c))) (int (length c)) = Inr pct"
      and out: "stdout w1 = stdout w @
            [Compressed_line (name_of p) (int (length c))
               (int (length (compress pf (name_of (gz_of p)) (clock pf k) c))) pct]"
      by blast
    from loop_stdout[OF rest] out
    have 1: "Compressed_line (name_of p) (int (length c))
              (int (length (compress pf (name_of (gz_of p)) (clock pf k) c))) pct \<in> set (stdout w')"
      by auto
    from loop_source_kept[OF rest ext] r(2) have 2: "lookup w' p = Some (File c t)"
      by (rule entry_File)
    from loop_opened_prefix[OF rest] obtain ops2 where "opened w' = opened w1 @ ops2" by blast
    with r(3) have 3: "opened w' = opened w @ ([(p, RB), (gz_of p, WB)] @ ops2)"
      "(p, RB) \<in> set ([(p, RB), (gz_of p, WB)] @ ops2)"
      "(gz_of p, WB) \<in> set ([(p, RB), (gz_of p, WB)] @ ops2)" by simp_all
    show ?thesis
      by (intro exI[of _ k] exI[of _ pct] exI[of _ "[(p, RB), (gz_of p, WB)] @ ops2"] conjI
            loop_keeps_artifact[OF rest notin ext k] pct 1 2 3)
  next
    case False
    with Cons.prems(2) have mem: "p \<in> set qs" by simp
    from Cons.prems(3) have dist: "distinct qs" by simp
    note o = process_file_other[OF step False Cons.prems(4) ext Cons.prems(6)]
    from o(2) Cons.prems(6) have nodir: "\<forall>t n. lookup w1 (gz_of p) \<noteq> Some (Dir t n)" by simp
    from gz_is_newer_cong[of w1 p w "gz_of p"] o Cons.prems(4,5)
    have stale: "gz_is_newer w1 (gz_of p) p = Inr False" by simp
    from process_file_opened[OF step] obtain ops1 where o1: "opened w1 = opened w @ ops1" by blast
    from Cons.IH[OF rest mem dist o(1) stale nodir] obtain k pct ops2 where
      ih: "lookup w' (gz_of p) =
             Some (File (compress pf (name_of (gz_of p)) (clock pf k) c) (clock pf k))"
          "percent_of (int (length c) -
              int (length (compress pf (name_of (gz_of p)) (clock pf k) c))) (int (length c)) = Inr pct"
          "Compressed_line (name_of p) (int (length c))
              (int (length (compress pf (name_of (gz_of p)) (clock pf k) c))) pct \<in> set (stdout w')"
          "lookup w' p = Some (File c t)"
      and o2: "opened w' = opened w1 @ ops2" "(p, RB) \<in> set ops2" "(gz_of p, WB) \<in> set ops2"
      by blast
    from o1 o2 have 3: "opened w' = opened w @ (ops1 @ ops2)"
      "(p, RB) \<in> set (ops1 @ ops2)" "(gz_of p, WB) \<in> set (ops1 @ ops2)" by simp_all
    show ?thesis
      by (intro exI[of _ k] exI[of _ pct] exI[of _ "ops1 @ ops2"] conjI ih 3)
  qed
qed

section \<open>The whole run\<close>

lemma distinct_rglob: "distinct (rglob w d)"
  by (simp add: rglob_def split: option.splits node.splits)

lemma rglob_under: "p \<in> set (rglob w d) \<Longrightarrow> strict_prefix d p"
  by (auto simp: rglob_def split: option.splits node.splits)

lemma rglob_nonempty_exists: "p \<in> set (rglob w d) \<Longrightarrow> path_exists w d"
  by (cases "lookup w d") (auto simp: rglob_def path_exists_def)

text \<open>The three ways a run ends.\<close>

lemma gzip_web_files_cases:
  obtains
    (no_data_dir) "\<not> path_exists w data_dir"
      "gzip_web_files pf w = (print Warn_data_dir_not_found w, Returned)"
  | (raised) w1 e where "path_exists w data_dir"
      "loop pf (rglob w data_dir) (0, 0) w = (w1, Inl e)"
      "gzip_web_files pf w = (w1, Raised e)"
  | (returned) w1 cs m where "path_exists w data_dir"
      "loop pf (rglob w data_dir) (0, 0) w = (w1, Inr cs)"
      "gzip_web_files pf w = (print m w1, Returned)"
      "m = (if fst cs > 0 then Summary_line (fst cs) (snd cs) else All_already_compressed)"
proof (cases "path_exists w data_dir")
  case False
  then have "gzip_web_files pf w = (print Warn_data_dir_not_found w, Returned)"
    by (simp add: gzip_web_files_def)
  with False show ?thesis by (rule no_data_dir)
next
  case True
  obtain w1 r where l: "loop pf (rglob w data_dir) (0, 0) w = (w1, r)" by fastforce
  show ?thesis
  proof (cases r)
    case (Inl e)
    with True l have "gzip_web_files pf w = (w1, Raised e)"
      by (simp add: gzip_web_files_def)
    with True l Inl show ?thesis by (simp add: raised)
  next
    case (Inr cs)
    let ?m = "if fst cs > 0 then Summary_line (fst cs) (snd cs) else All_already_compressed"
    from True l Inr have g: "gzip_web_files pf w = (print ?m w1, Returned)"
      by (cases cs) (simp add: gzip_web_files_def)
    from l Inr have l': "loop pf (rglob w data_dir) (0, 0) w = (w1, Inr cs)" by simp
    show ?thesis by (rule returned[OF True l' g refl])
  qed
qed

lemma run_frame:
  "entry (fst (gzip_web_files pf w)) x = entry w x \<or>
   (\<exists>q\<in>set (rglob w data_dir). x = gz_of q \<and> is_file w q \<and> suffix_of q \<in> extensions)"
proof (cases pf w rule: gzip_web_files_cases)
  case no_data_dir then show ?thesis by simp
next
  case (raised w1 e)
  with loop_frame[OF raised(2), of x] show ?thesis by simp
next
  case (returned w1 cs m)
  with loop_frame[OF returned(2), of x] show ?thesis by simp
qed

lemma run_source_kept:
  assumes "suffix_of x \<in> extensions"
  shows "entry (fst (gzip_web_files pf w)) x = entry w x"
proof (cases pf w rule: gzip_web_files_cases)
  case no_data_dir then show ?thesis by simp
next
  case (raised w1 e)
  with loop_source_kept[OF raised(2) assms] show ?thesis by simp
next
  case (returned w1 cs m)
  with loop_source_kept[OF returned(2) assms] show ?thesis by simp
qed

lemma run_opened:
  "\<exists>ops. opened (fst (gzip_web_files pf w)) = opened w @ ops \<and>
     (\<forall>x\<in>set ops. \<exists>q\<in>set (rglob w data_dir). is_file w q \<and> suffix_of q \<in> extensions \<and>
         (x = (q, RB) \<or> x = (gz_of q, WB)))"
proof (cases pf w rule: gzip_web_files_cases)
  case no_data_dir then show ?thesis by simp
next
  case (raised w1 e)
  with loop_opened[OF raised(2)] show ?thesis by simp
next
  case (returned w1 cs m)
  with loop_opened[OF returned(2)] show ?thesis by simp
qed

lemma run_keeps_fresh:
  assumes "lookup w p = Some (File c t)" and "suffix_of p \<in> extensions"
    and "lookup w (gz_of p) = Some (File z tz)" and "tz > t"
  shows "lookup (fst (gzip_web_files pf w)) p = Some (File c t) \<and>
         lookup (fst (gzip_web_files pf w)) (gz_of p) = Some (File z tz) \<and>
         (\<exists>ops. opened (fst (gzip_web_files pf w)) = opened w @ ops \<and>
            (p, RB) \<notin> set ops \<and> (gz_of p, WB) \<notin> set ops)"
proof (cases pf w rule: gzip_web_files_cases)
  case no_data_dir with assms show ?thesis by simp
next
  case (raised w1 e)
  with loop_keeps_fresh[OF raised(2) assms] show ?thesis by simp
next
  case (returned w1 cs m)
  with loop_keeps_fresh[OF returned(2) assms] show ?thesis by simp
qed

lemma run_regenerates:
  assumes returns: "snd (gzip_web_files pf w) = Returned"
    and under: "p \<in> set (rglob w data_dir)"
    and src: "lookup w p = Some (File c t)" and ext: "suffix_of p \<in> extensions"
    and stale: "gz_is_newer w (gz_of p) p = Inr False"
    and nodir: "\<forall>t n. lookup w (gz_of p) \<noteq> Some (Dir t n)"
  shows "\<exists>k pct ops.
           lookup (fst (gzip_web_files pf w)) (gz_of p) =
             Some (File (compress pf (name_of (gz_of p)) (clock pf k) c) (clock pf k)) \<and>
           percent_of (int (length c) -
              int (length (compress pf (name_of (gz_of p)) (clock pf k) c))) (int (length c)) = Inr pct \<and>
           Compressed_line (name_of p) (int (length c))
              (int (length (compress pf (name_of (gz_of p)) (clock pf k) c))) pct
             \<in> set (stdout (fst (gzip_web_files pf w))) \<and>
           lookup (fst (gzip_web_files pf w)) p = Some (File c t) \<and>
           opened (fst (gzip_web_files pf w)) = opened w @ ops \<and>
           (p, RB) \<in> set ops \<and> (gz_of p, WB) \<in> set ops"
proof (cases pf w rule: gzip_web_files_cases)
  case no_data_dir with rglob_nonempty_exists[OF under] show ?thesis by simp
next
  case (raised w1 e) with returns show ?thesis by simp
next
  case (returned w1 cs m)
  from loop_regenerates[OF returned(2) under distinct_rglob src ext stale nodir]
  obtain k pct ops where
    r: "lookup w1 (gz_of p) =
             Some (File (compress pf (name_of (gz_of p)) (clock pf k) c) (clock pf k))"
       "percent_of (int (length c) -
              int (length (compress pf (name_of (gz_of p)) (clock pf k) c))) (int (length c)) = Inr pct"
       "Compressed_line (name_of p) (int (length c))
              (int (length (compress pf (name_of (gz_of p)) (clock pf k) c))) pct \<in> set (stdout w1)"
       "lookup w1 p = Some (File c t)"
       "opened w1 = opened w @ ops" "(p, RB) \<in> set ops" "(gz_of p, WB) \<in> set ops"
    by blast
  have f: "fst (gzip_web_files pf w) = print m w1" using returned(3) by simp
  show ?thesis unfolding f
    by (intro exI[of _ k] exI[of _ pct] exI[of _ ops] conjI) (simp_all add: r)
qed

lemma compress_and_report_total:
  assumes src: "lookup w p = Some (File c t)" and neq: "gz \<noteq> p" and "faults pf p = None"
    and "\<forall>t n. lookup w gz \<noteq> Some (Dir t n)"
  shows "\<exists>w' cs'. compress_and_report pf p gz cs w = (w', Inr cs')"
proof -
  from compress_file_total[OF assms] obtain w1 where
    c: "compress_file pf p gz w = (w1, Inr ())" by blast
  from compress_file_Inr[OF c src neq] obtain z tz where "lookup w1 gz = Some (File z tz)" by blast
  then have g: "stat w1 gz = Inr (tz, int (length z))" by (rule stat_File)
  obtain pct where "percent_of (int (length c) - int (length z)) (int (length c)) = Inr pct"
    using percent_of_total by blast
  with stat_File[OF src] c g show ?thesis
    by (simp add: compress_and_report_def Let_def)
qed

lemma process_file_total:
  assumes "faults pf q = None"
    and "is_file w q \<and> suffix_of q \<in> extensions \<longrightarrow> (\<forall>t n. lookup w (gz_of q) \<noteq> Some (Dir t n))"
  shows "\<exists>w' cs'. process_file pf q cs w = (w', Inr cs')"
proof (cases "is_file w q \<and> suffix_of q \<in> extensions")
  case False
  then have "process_file pf q cs w = (w, Inr cs)" by (auto simp: process_file_def)
  then show ?thesis by blast
next
  case True
  then obtain c t where src: "lookup w q = Some (File c t)" and ext: "suffix_of q \<in> extensions"
    by (auto simp: is_file_iff)
  from gz_is_newer_File[OF src] obtain b where n: "gz_is_newer w (gz_of q) q = Inr b" by blast
  have neq: "gz_of q \<noteq> q" by (rule gz_of_neq_source[OF ext])
  from True assms(2) have nodir: "\<forall>t n. lookup w (gz_of q) \<noteq> Some (Dir t n)" by simp
  from compress_and_report_total[OF src neq assms(1) nodir] True n show ?thesis
    by (cases b) (simp_all add: process_file_def with_suffix_gz)
qed

lemma entry_Dir:
  assumes "entry w' x = entry w x" and "lookup w' x = Some (Dir t n)"
  shows "\<exists>t'. lookup w x = Some (Dir t' n)"
proof (cases "lookup w x")
  case None with assms show ?thesis by (simp add: entry_def)
next
  case (Some a) with assms show ?thesis by (cases a) (simp_all add: entry_def)
qed

lemma process_file_dir_origin:
  assumes run: "process_file pf q cs w = (w', Inr cs')" and "lookup w' x = Some (Dir t n)"
  shows "\<exists>t'. lookup w x = Some (Dir t' n)"
proof -
  from process_file_frame[OF run, of x] consider
    "entry w' x = entry w x"
  | "x = gz_of q" "is_file w q" "suffix_of q \<in> extensions" "gz_is_newer w (gz_of q) q = Inr False"
    by blast
  then show ?thesis
  proof cases
    case 1 then show ?thesis using assms(2) by (rule entry_Dir)
  next
    case 2
    from 2(2) obtain c tc where "lookup w q = Some (File c tc)" by (auto simp: is_file_iff)
    from process_file_regenerates(1)[OF run this 2(3,4)] 2(1) assms(2) show ?thesis by auto
  qed
qed

lemma loop_total:
  assumes nofault: "\<forall>q. faults pf q = None"
    and "\<forall>q\<in>set qs. is_file w q \<and> suffix_of q \<in> extensions \<longrightarrow>
           (\<forall>t n. lookup w (gz_of q) \<noteq> Some (Dir t n))"
  shows "\<exists>w' cs'. loop pf qs cs w = (w', Inr cs')"
  using assms(2)
proof (induction qs arbitrary: cs w)
  case Nil
  show ?case by simp
next
  case (Cons q qs)
  from Cons.prems nofault obtain w1 cs1 where
    step: "process_file pf q cs w = (w1, Inr cs1)"
    using process_file_total[of pf q w cs] by auto
  have "\<forall>q'\<in>set qs. is_file w1 q' \<and> suffix_of q' \<in> extensions \<longrightarrow>
           (\<forall>t n. lookup w1 (gz_of q') \<noteq> Some (Dir t n))"
  proof (intro ballI impI allI)
    fix q' t n
    assume q': "q' \<in> set qs" and e: "is_file w1 q' \<and> suffix_of q' \<in> extensions"
    from entry_is_file[OF process_file_source_kept[OF step, of q']] e have "is_file w q'" by simp
    with Cons.prems q' e have "\<forall>t n. lookup w (gz_of q') \<noteq> Some (Dir t n)" by simp
    with process_file_dir_origin[OF step, of "gz_of q'" t n]
    show "lookup w1 (gz_of q') \<noteq> Some (Dir t n)" by blast
  qed
  from Cons.IH[OF this, of cs1] step show ?case by simp
qed

lemma compress_and_report_no_zero_division:
  assumes "compress_and_report pf p gz cs w = (w', r)"
  shows "r \<noteq> Inl ZeroDivisionError"
  using assms
proof (cases rule: compress_and_report_cases)
  case (stat_fails e) with stat_error[of w p] show ?thesis by auto
next
  case (compress_fails st e)
  with compress_file_no_zero_division[OF compress_fails(2)] show ?thesis by simp
next
  case (stat_gz_fails st w1 u e) with stat_error[of w1 gz] show ?thesis by auto
next
  case reported then show ?thesis by simp
qed

lemma process_file_no_zero_division:
  assumes "process_file pf p cs w = (w', r)"
  shows "r \<noteq> Inl ZeroDivisionError"
  using assms
proof (cases rule: process_file_cases)
  case ineligible then show ?thesis by simp
next
  case skipped then show ?thesis by simp
next
  case compressed
  then show ?thesis using compress_and_report_no_zero_division by blast
qed

lemma loop_no_zero_division:
  assumes "loop pf qs cs w = (w', r)"
  shows "r \<noteq> Inl ZeroDivisionError"
  using assms
proof (induction qs arbitrary: cs w)
  case Nil
  then show ?case by auto
next
  case (Cons q qs)
  from Cons.prems show ?case
  proof (cases rule: loop_Cons_cases)
    case (raised e)
    with process_file_no_zero_division[OF raised(1)] show ?thesis by simp
  next
    case (continued w1 cs1)
    from Cons.IH[OF continued(2)] show ?thesis .
  qed
qed

lemma run_no_zero_division: "snd (gzip_web_files pf w) \<noteq> Raised ZeroDivisionError"
proof (cases pf w rule: gzip_web_files_cases)
  case no_data_dir then show ?thesis by simp
next
  case (raised w1 e)
  with loop_no_zero_division[OF raised(2)] show ?thesis by simp
next
  case (returned w1 cs m) then show ?thesis by simp
qed

text \<open>A copy that fails part-way: what is left behind.\<close>

lemma compress_file_copy_fails:
  assumes src: "lookup w p = Some (File c t)" and neq: "gz \<noteq> p"
    and fault: "faults pf p = Some (Copy_fails partial)"
    and nodir: "\<forall>t n. lookup w gz \<noteq> Some (Dir t n)"
  shows "\<exists>w' tm. compress_file pf p gz w = (w', Inl OSError) \<and>
           lookup w' gz = Some (File partial tm)"
proof -
  let ?w1 = "w\<lparr>opened := opened w @ [(p, RB)]\<rparr>"
  have o1: "open_rb pf p w = (?w1, Inr ())"
    using src fault by (simp add: open_rb_ok)
  have l1: "lookup ?w1 = lookup w" by (simp add: lookup_def fun_eq_iff)
  obtain w2 where o2: "open_wb pf p gz ?w1 = (w2, Inr ())"
    using open_wb_ok[of pf p ?w1 gz] fault nodir l1 by auto
  have "p \<noteq> gz" using neq by simp
  then have "entry w2 p = entry ?w1 p" by (rule open_wb_frame[OF o2])
  moreover have "lookup ?w1 p = Some (File c t)" using src l1 by simp
  ultimately have l2: "lookup w2 p = Some (File c t)" by (rule entry_File)
  let ?w3 = "w2\<lparr>files := AList.update gz (File partial (clock pf (ticks w2))) (files w2),
                 ticks := ticks w2 + 1\<rparr>"
  have o3: "copy_and_close pf p gz w2 = (?w3, Inl OSError)"
    using l2 fault by (simp add: copy_and_close_def Let_def)
  have "lookup ?w3 gz = Some (File partial (clock pf (ticks w2)))"
    by (simp add: lookup_def update_conv')
  moreover from o1 o2 o3 have "compress_file pf p gz w = (?w3, Inl OSError)"
    by (simp add: compress_file_def)
  ultimately show ?thesis by blast
qed

lemma process_file_copy_fails:
  assumes run: "process_file pf p cs w = (w', Inl e)"
    and fault: "faults pf p = Some (Copy_fails partial)"
    and nodir: "\<forall>t n. lookup w (gz_of p) \<noteq> Some (Dir t n)"
  shows "e = OSError \<and> (\<exists>tm. lookup w' (gz_of p) = Some (File partial tm))"
  using run
proof (cases rule: process_file_cases)
  case ineligible then show ?thesis by simp
next
  case skipped then show ?thesis by simp
next
  case compressed
  from compressed(1) obtain c t where src: "lookup w p = Some (File c t)"
    by (auto simp: is_file_iff)
  from compress_file_copy_fails[OF src gz_of_neq_source[OF compressed(2)] fault nodir]
  obtain w1 tm where c: "compress_file pf p (gz_of p) w = (w1, Inl OSError)"
    and l: "lookup w1 (gz_of p) = Some (File partial tm)" by blast
  from stat_File[OF src] c have "compress_and_report pf p (gz_of p) cs w = (w1, Inl OSError)"
    by (simp add: compress_and_report_def)
  with compressed(4) l show ?thesis by auto
qed

section \<open>Injected failures\<close>

lemma compress_file_read_fails:
  assumes "faults pf p = Some Read_open_fails"
  shows "compress_file pf p gz w = (w\<lparr>opened := opened w @ [(p, RB)]\<rparr>, Inl PermissionError)"
  using assms by (simp add: compress_file_def open_rb_def Let_def)

lemma compress_file_write_fails:
  assumes src: "lookup w p = Some (File c t)"
    and fault: "faults pf p = Some Write_open_fails"
    and nodir: "\<forall>t n. lookup w gz \<noteq> Some (Dir t n)"
  shows "compress_file pf p gz w =
           (w\<lparr>opened := opened w @ [(p, RB), (gz, WB)]\<rparr>, Inl PermissionError)"
proof -
  let ?w1 = "w\<lparr>opened := opened w @ [(p, RB)]\<rparr>"
  have o1: "open_rb pf p w = (?w1, Inr ())"
    using src fault by (simp add: open_rb_ok)
  have l1: "lookup ?w1 gz = lookup w gz" by (simp add: lookup_def)
  have o2: "open_wb pf p gz ?w1 =
              (w\<lparr>opened := opened w @ [(p, RB), (gz, WB)]\<rparr>, Inl PermissionError)"
  proof (cases "lookup w gz")
    case None
    with l1 fault show ?thesis by (simp add: open_wb_def Let_def)
  next
    case (Some a)
    with nodir obtain z tz where "a = File z tz" by (cases a) auto
    with Some l1 fault show ?thesis by (simp add: open_wb_def Let_def)
  qed
  from o1 o2 show ?thesis by (simp add: compress_file_def)
qed

lemma compress_file_copy_fails_opened:
  assumes src: "lookup w p = Some (File c t)" and neq: "gz \<noteq> p"
    and fault: "faults pf p = Some (Copy_fails partial)"
    and nodir: "\<forall>t n. lookup w gz \<noteq> Some (Dir t n)"
  shows "\<exists>w' tm. compress_file pf p gz w = (w', Inl OSError) \<and>
           lookup w' gz = Some (File partial tm) \<and>
           opened w' = opened w @ [(p, RB), (gz, WB)]"
proof -
  let ?w1 = "w\<lparr>opened := opened w @ [(p, RB)]\<rparr>"
  have o1: "open_rb pf p w = (?w1, Inr ())"
    using src fault by (simp add: open_rb_ok)
  have l1: "lookup ?w1 = lookup w" by (simp add: lookup_def fun_eq_iff)
  obtain w2 where o2: "open_wb pf p gz ?w1 = (w2, Inr ())"
    using open_wb_ok[of pf p ?w1 gz] fault nodir l1 by auto
  have "p \<noteq> gz" using neq by simp
  then have "entry w2 p = entry ?w1 p" by (rule open_wb_frame[OF o2])
  moreover have "lookup ?w1 p = Some (File c t)" using src l1 by simp
  ultimately have l2: "lookup w2 p = Some (File c t)" by (rule entry_File)
  let ?w3 = "w2\<lparr>files := AList.update gz (File partial (clock pf (ticks w2))) (files w2),
                 ticks := ticks w2 + 1\<rparr>"
  have o3: "copy_and_close pf p gz w2 = (?w3, Inl OSError)"
    using l2 fault by (simp add: copy_and_close_def Let_def)
  have a: "lookup ?w3 gz = Some (File partial (clock pf (ticks w2)))"
    by (simp add: lookup_def update_conv')
  from open_wb_effect[OF o2] have b: "opened ?w3 = opened w @ [(p, RB), (gz, WB)]" by simp
  from o1 o2 o3 have c: "compress_file pf p gz w = (?w3, Inl OSError)"
    by (simp add: compress_file_def)
  show ?thesis
    by (intro exI[of _ ?w3] exI[of _ "clock pf (ticks w2)"] conjI a b c)
qed

lemma process_file_unskipped:
  assumes src: "lookup w p = Some (File c t)" and ext: "suffix_of p \<in> extensions"
    and stale: "gz_is_newer w (gz_of p) p = Inr False"
  shows "process_file pf p cs w = compress_and_report pf p (gz_of p) cs w"
  using is_file_File[OF src] ext stale by (simp add: process_file_def with_suffix_gz)

lemma compress_and_report_fails:
  assumes src: "lookup w p = Some (File c t)"
    and "compress_file pf p gz w = (w', Inl e)"
  shows "compress_and_report pf p gz cs w = (w', Inl e)"
  using stat_File[OF src] assms(2) by (simp add: compress_and_report_def)

text \<open>The outcome of lines 26 to 45 on a source that is not skipped, for each kind of
  failure the platform injects.\<close>

lemma process_file_fault:
  assumes src: "lookup w p = Some (File c t)" and ext: "suffix_of p \<in> extensions"
    and stale: "gz_is_newer w (gz_of p) p = Inr False"
    and nodir: "\<forall>t n. lookup w (gz_of p) \<noteq> Some (Dir t n)"
    and fault: "faults pf p = Some f"
  shows "\<exists>w'. process_file pf p cs w =
              (w', Inl (case f of Copy_fails _ \<Rightarrow> OSError | _ \<Rightarrow> PermissionError)) \<and>
           stdout w' = stdout w \<and>
           lookup w' p = Some (File c t) \<and>
           (case f of
              Copy_fails partial \<Rightarrow> (\<exists>tm. lookup w' (gz_of p) = Some (File partial tm))
            | _ \<Rightarrow> lookup w' (gz_of p) = lookup w (gz_of p)) \<and>
           opened w' = opened w @
             (case f of Read_open_fails \<Rightarrow> [(p, RB)] | _ \<Rightarrow> [(p, RB), (gz_of p, WB)])"
proof -
  note unfold = process_file_unskipped[OF src ext stale, of pf cs]
  have neq: "gz_of p \<noteq> p" by (rule gz_of_neq_source[OF ext])
  show ?thesis
  proof (cases f)
    case Read_open_fails
    let ?w' = "w\<lparr>opened := opened w @ [(p, RB)]\<rparr>"
    from compress_file_read_fails[of pf p "gz_of p" w] fault Read_open_fails
    have "compress_file pf p (gz_of p) w = (?w', Inl PermissionError)" by simp
    from compress_and_report_fails[OF src this, of cs] unfold
    have "process_file pf p cs w = (?w', Inl PermissionError)" by simp
    with Read_open_fails src show ?thesis by (simp add: lookup_def)
  next
    case Write_open_fails
    let ?w' = "w\<lparr>opened := opened w @ [(p, RB), (gz_of p, WB)]\<rparr>"
    from compress_file_write_fails[OF src _ nodir, of pf] fault Write_open_fails
    have "compress_file pf p (gz_of p) w = (?w', Inl PermissionError)" by simp
    from compress_and_report_fails[OF src this, of cs] unfold
    have "process_file pf p cs w = (?w', Inl PermissionError)" by simp
    with Write_open_fails src show ?thesis by (simp add: lookup_def)
  next
    case (Copy_fails partial)
    with fault have fp: "faults pf p = Some (Copy_fails partial)" by simp
    from compress_file_copy_fails_opened[OF src neq fp nodir] obtain w' tm where
      c: "compress_file pf p (gz_of p) w = (w', Inl OSError)"
      and a: "lookup w' (gz_of p) = Some (File partial tm)"
      and o: "opened w' = opened w @ [(p, RB), (gz_of p, WB)]" by blast
    from compress_and_report_fails[OF src c, of cs] unfold
    have r: "process_file pf p cs w = (w', Inl OSError)" by simp
    have "p \<noteq> gz_of p" using neq by simp
    then have "entry w' p = entry w p" by (rule compress_file_frame[OF c])
    then have s: "lookup w' p = Some (File c t)" using src by (rule entry_File)
    have out: "stdout w' = stdout w" by (rule compress_file_effect(1)[OF c])
    have "\<exists>tm. lookup w' (gz_of p) = Some (File partial tm)" by (rule exI) (rule a)
    with Copy_fails r s o out show ?thesis by simp
  qed
qed

lemma loop_total_on:
  assumes nofault: "\<forall>q\<in>set qs. faults pf q = None"
    and "\<forall>q\<in>set qs. is_file w q \<and> suffix_of q \<in> extensions \<longrightarrow>
           (\<forall>t n. lookup w (gz_of q) \<noteq> Some (Dir t n))"
  shows "\<exists>w' cs'. loop pf qs cs w = (w', Inr cs')"
  using assms
proof (induction qs arbitrary: cs w)
  case Nil
  show ?case by simp
next
  case (Cons q qs)
  from Cons.prems obtain w1 cs1 where
    step: "process_file pf q cs w = (w1, Inr cs1)"
    using process_file_total[of pf q w cs] by auto
  have "\<forall>q'\<in>set qs. is_file w1 q' \<and> suffix_of q' \<in> extensions \<longrightarrow>
           (\<forall>t n. lookup w1 (gz_of q') \<noteq> Some (Dir t n))"
  proof (intro ballI impI allI)
    fix q' t n
    assume q': "q' \<in> set qs" and e: "is_file w1 q' \<and> suffix_of q' \<in> extensions"
    from entry_is_file[OF process_file_source_kept[OF step, of q']] e have "is_file w q'" by simp
    with Cons.prems(2) q' e have "\<forall>t n. lookup w (gz_of q') \<noteq> Some (Dir t n)" by simp
    with process_file_dir_origin[OF step, of "gz_of q'" t n]
    show "lookup w1 (gz_of q') \<noteq> Some (Dir t n)" by blast
  qed
  moreover from Cons.prems(1) have "\<forall>q'\<in>set qs. faults pf q' = None" by simp
  ultimately have "\<exists>w' cs'. loop pf qs cs1 w1 = (w', Inr cs')" by (rule Cons.IH[rotated])
  with step show ?case by simp
qed

lemma loop_other:
  assumes "loop pf qs cs w = (w', r)" and "p \<notin> set qs"
    and "lookup w p = Some (File c t)" and ext: "suffix_of p \<in> extensions"
    and "\<forall>t n. lookup w (gz_of p) \<noteq> Some (Dir t n)"
  shows "lookup w' p = Some (File c t) \<and> lookup w' (gz_of p) = lookup w (gz_of p)"
  using assms(1,2,3,5)
proof (induction qs arbitrary: cs w)
  case Nil
  then show ?case by simp
next
  case (Cons q qs)
  from Cons.prems(2) have other: "q \<noteq> p" and notin: "p \<notin> set qs" by auto
  from Cons.prems(1) show ?case
  proof (cases rule: loop_Cons_cases)
    case (raised e)
    from process_file_other[OF raised(1) other Cons.prems(3) ext Cons.prems(4)]
    show ?thesis by simp
  next
    case (continued w1 cs1)
    note o = process_file_other[OF continued(1) other Cons.prems(3) ext Cons.prems(4)]
    from o(2) Cons.prems(4) have nodir: "\<forall>t n. lookup w1 (gz_of p) \<noteq> Some (Dir t n)" by simp
    from Cons.IH[OF continued(2) notin o(1) nodir] o(2) show ?thesis by simp
  qed
qed

section \<open>The claims\<close>

text \<open>
  In the statements below the file system is the one the run starts from, \<open>w\<close>, and
  \<open>fst (gzip_web_files pf w)\<close> the one it leaves. A source is given by its entry,
  \<open>lookup w p = Some (File c t)\<close>, and by the test of line 26 on its suffix.
\<close>

text \<open>
  Claim C1 (round-trip fidelity). Take a regular file under \<open>data\<close> whose extension is
  in the allow-set and which the freshness check of line 30 does not skip. When the run
  returns, its artifact path, the source path with \<open>.gz\<close> appended, holds a regular
  file whose decompressed content is the content of the source, byte for byte, and the
  source is as it was. The decoder is any function that inverts the platform's encoder.
  The freshness check is read on the file system the run starts from; for that the
  artifact path must not be a directory, since the time of a directory can advance
  during the run.
\<close>

theorem round_trip_fidelity:
  assumes codec: "\<forall>name tm content. decompress (compress pf name tm content) = Some content"
    and returns: "snd (gzip_web_files pf w) = Returned"
    and under: "p \<in> set (rglob w data_dir)"
    and src: "lookup w p = Some (File c t)"
    and ext: "suffix_of p \<in> extensions"
    and not_skipped: "gz_is_newer w (gz_of p) p = Inr False"
    and nodir: "\<forall>t n. lookup w (gz_of p) \<noteq> Some (Dir t n)"
  shows "\<exists>z tz. lookup (fst (gzip_web_files pf w)) (gz_of p) = Some (File z tz) \<and>
           decompress z = Some c \<and>
           lookup (fst (gzip_web_files pf w)) p = Some (File c t) \<and>
           path_str (gz_of p) = path_str p @ ''.gz''"
proof -
  from run_regenerates[OF returns under src ext not_skipped nodir] obtain k where
    a: "lookup (fst (gzip_web_files pf w)) (gz_of p) =
          Some (File (compress pf (name_of (gz_of p)) (clock pf k) c) (clock pf k))"
    and s: "lookup (fst (gzip_web_files pf w)) p = Some (File c t)"
    by blast
  from codec have "decompress (compress pf (name_of (gz_of p)) (clock pf k) c) = Some c"
    by blast
  moreover have "path_str (gz_of p) = path_str p @ ''.gz''"
    using path_str_gz_of eligible_name(1)[OF ext] by blast
  ultimately show ?thesis using a s by blast
qed

theorem round_trip_fidelity_witness:
  "\<exists>z tz. lookup (fst (gzip_web_files example_platform example_world))
             [''data'', ''css'', ''a.css.gz''] = Some (File z tz) \<and>
          example_decompress z = Some [1, 2, 3]"
proof -
  have g: "gz_of [''data'', ''css'', ''a.css''] = [''data'', ''css'', ''a.css.gz'']"
    by code_simp
  have h1: "\<forall>name tm content.
      example_decompress (compress example_platform name tm content) = Some content"
    by (simp add: example_platform_def example_decompress_def)
  have h2: "snd (gzip_web_files example_platform example_world) = Returned"
    by code_simp
  have h3: "[''data'', ''css'', ''a.css''] \<in> set (rglob example_world data_dir)"
    by code_simp
  have h4: "lookup example_world [''data'', ''css'', ''a.css''] = Some (File [1, 2, 3] 5)"
    by code_simp
  have h5: "suffix_of [''data'', ''css'', ''a.css''] \<in> extensions"
    by code_simp
  have h6: "gz_is_newer example_world (gz_of [''data'', ''css'', ''a.css''])
              [''data'', ''css'', ''a.css''] = Inr False"
    by code_simp
  have "lookup example_world [''data'', ''css'', ''a.css.gz''] = Some (File [9] 3)"
    by code_simp
  then have h7: "\<forall>t n. lookup example_world (gz_of [''data'', ''css'', ''a.css'']) \<noteq> Some (Dir t n)"
    by (simp add: g)
  from round_trip_fidelity[OF h1 h2 h3 h4 h5 h6 h7] show ?thesis
    unfolding g by blast
qed

text \<open>
  Claim C2 (idempotent skip). When the artifact of an eligible source is a regular file
  whose modification time is strictly after the source's, the run skips the source:
  it opens neither the source nor the artifact, the artifact keeps its bytes and its
  modification time, and so does the source. This holds however the run ends, and a
  second run, on any platform, leaves the artifact unchanged again.
\<close>

theorem fresh_artifact_skipped:
  assumes src: "lookup w p = Some (File c t)"
    and ext: "suffix_of p \<in> extensions"
    and art: "lookup w (gz_of p) = Some (File z tz)"
    and newer: "tz > t"
  shows "lookup (fst (gzip_web_files pf w)) (gz_of p) = Some (File z tz) \<and>
         lookup (fst (gzip_web_files pf w)) p = Some (File c t) \<and>
         (\<exists>ops. opened (fst (gzip_web_files pf w)) = opened w @ ops \<and>
            (p, RB) \<notin> set ops \<and> (gz_of p, WB) \<notin> set ops) \<and>
         lookup (fst (gzip_web_files pf' (fst (gzip_web_files pf w)))) (gz_of p) = Some (File z tz)"
proof -
  note first = run_keeps_fresh[OF src ext art newer, of pf]
  from first have src': "lookup (fst (gzip_web_files pf w)) p = Some (File c t)"
    and art': "lookup (fst (gzip_web_files pf w)) (gz_of p) = Some (File z tz)"
    by simp_all
  from run_keeps_fresh[OF src' ext art' newer, of pf'] first show ?thesis by simp
qed

theorem fresh_artifact_skipped_witness:
  "lookup (fst (gzip_web_files example_platform example_world)) [''data'', ''c.html.gz'']
     = Some (File [42] 4) \<and>
   lookup (fst (gzip_web_files failing_platform
                  (fst (gzip_web_files example_platform example_world))))
     [''data'', ''c.html.gz''] = Some (File [42] 4)"
proof -
  have g: "gz_of [''data'', ''c.html''] = [''data'', ''c.html.gz'']"
    by code_simp
  have h1: "lookup example_world [''data'', ''c.html''] = Some (File [4, 5] 2)"
    by code_simp
  have h2: "suffix_of [''data'', ''c.html''] \<in> extensions"
    by code_simp
  have h3: "lookup example_world (gz_of [''data'', ''c.html'']) = Some (File [42] 4)"
    by code_simp
  have h4: "(4::rat) > 2" by simp
  from fresh_artifact_skipped[OF h1 h2 h3 h4, of example_platform failing_platform]
  show ?thesis unfolding g by simp
qed

text \<open>
  Claim C3 (regeneration). When the source of an existing artifact has been modified
  after the artifact, a run that returns has opened both and has overwritten the
  artifact with the compression of the current bytes of the source.
\<close>

theorem stale_artifact_regenerated:
  assumes returns: "snd (gzip_web_files pf w) = Returned"
    and under: "p \<in> set (rglob w data_dir)"
    and src: "lookup w p = Some (File c t)"
    and ext: "suffix_of p \<in> extensions"
    and art: "lookup w (gz_of p) = Some (File z tz)"
    and older: "tz < t"
  shows "\<exists>k ops. lookup (fst (gzip_web_files pf w)) (gz_of p) =
             Some (File (compress pf (name_of (gz_of p)) (clock pf k) c) (clock pf k)) \<and>
           opened (fst (gzip_web_files pf w)) = opened w @ ops \<and>
           (p, RB) \<in> set ops \<and> (gz_of p, WB) \<in> set ops"
proof -
  from gz_is_newer_File[OF src, of "gz_of p"] art older
  have stale: "gz_is_newer w (gz_of p) p = Inr False" by simp
  from art have nodir: "\<forall>t n. lookup w (gz_of p) \<noteq> Some (Dir t n)" by simp
  from run_regenerates[OF returns under src ext stale nodir] show ?thesis by blast
qed

theorem stale_artifact_regenerated_witness:
  "\<exists>k ops. lookup (fst (gzip_web_files example_platform example_world))
              [''data'', ''css'', ''a.css.gz''] =
             Some (File (31 # 139 # [1, 2, 3]) (100 + of_nat k)) \<and>
           opened (fst (gzip_web_files example_platform example_world)) = ops \<and>
           ([''data'', ''css'', ''a.css.gz''], WB) \<in> set ops"
proof -
  have g: "gz_of [''data'', ''css'', ''a.css''] = [''data'', ''css'', ''a.css.gz'']"
    by code_simp
  have h1: "snd (gzip_web_files example_platform example_world) = Returned"
    by code_simp
  have h2: "[''data'', ''css'', ''a.css''] \<in> set (rglob example_world data_dir)"
    by code_simp
  have h3: "lookup example_world [''data'', ''css'', ''a.css''] = Some (File [1, 2, 3] 5)"
    by code_simp
  have h4: "suffix_of [''data'', ''css'', ''a.css''] \<in> extensions"
    by code_simp
  have h5: "lookup example_world (gz_of [''data'', ''css'', ''a.css'']) = Some (File [9] 3)"
    by code_simp
  have h6: "(3::rat) < 5" by simp
  have o: "opened example_world = []" by (simp add: example_world_def)
  from stale_artifact_regenerated[OF h1 h2 h3 h4 h5 h6] show ?thesis
    unfolding g o by (simp add: example_platform_def)
qed

text \<open>
  Claim C4 (files of other types). A file whose extension is outside the allow-set is
  rejected by the test of line 26: it is never opened as a compression source, and no
  artifact is made for it, the path with \<open>.gz\<close> appended to it being neither opened
  for writing nor changed. The run leaves the file itself as it was; the only paths a run
  writes are the artifacts of eligible sources, which are its output and not among the
  files the claim is about.
\<close>

theorem other_extensions_not_compressed:
  assumes "suffix_of p \<notin> extensions"
  shows "(\<exists>ops. opened (fst (gzip_web_files pf w)) = opened w @ ops \<and>
            (p, RB) \<notin> set ops \<and> (gz_of p, WB) \<notin> set ops) \<and>
         entry (fst (gzip_web_files pf w)) (gz_of p) = entry w (gz_of p) \<and>
         ((\<forall>q\<in>set (rglob w data_dir). is_file w q \<and> suffix_of q \<in> extensions \<longrightarrow> p \<noteq> gz_of q)
            \<longrightarrow> entry (fst (gzip_web_files pf w)) p = entry w p)"
proof -
  have inj: "gz_of p \<noteq> gz_of q" if "suffix_of q \<in> extensions" for q
    using gz_of_eq_iff[OF that, of p] assms that by auto
  from run_opened[of pf w] obtain ops where
    o: "opened (fst (gzip_web_files pf w)) = opened w @ ops"
       "\<forall>x\<in>set ops. \<exists>q\<in>set (rglob w data_dir). is_file w q \<and> suffix_of q \<in> extensions \<and>
           (x = (q, RB) \<or> x = (gz_of q, WB))" by blast
  have "(p, RB) \<notin> set ops"
  proof
    assume "(p, RB) \<in> set ops"
    with o(2) obtain q where "suffix_of q \<in> extensions" "(p, RB) = (q, RB) \<or> (p, RB) = (gz_of q, WB)"
      by blast
    with assms show False by auto
  qed
  moreover have "(gz_of p, WB) \<notin> set ops"
  proof
    assume "(gz_of p, WB) \<in> set ops"
    with o(2) obtain q where "suffix_of q \<in> extensions"
      "(gz_of p, WB) = (q, RB) \<or> (gz_of p, WB) = (gz_of q, WB)" by blast
    with inj show False by auto
  qed
  ultimately have 1: "\<exists>ops. opened (fst (gzip_web_files pf w)) = opened w @ ops \<and>
            (p, RB) \<notin> set ops \<and> (gz_of p, WB) \<notin> set ops" using o(1) by blast
  from run_frame[of pf w "gz_of p"] inj
  have 2: "entry (fst (gzip_web_files pf w)) (gz_of p) = entry w (gz_of p)" by blast
  from run_frame[of pf w p]
  have 3: "(\<forall>q\<in>set (rglob w data_dir). is_file w q \<and> suffix_of q \<in> extensions \<longrightarrow> p \<noteq> gz_of q)
            \<longrightarrow> entry (fst (gzip_web_files pf w)) p = entry w p" by blast
  from 1 2 3 show ?thesis by simp
qed

theorem other_extensions_not_compressed_witness:
  "([''data'', ''b.txt''], RB) \<notin> set (opened (fst (gzip_web_files example_platform example_world))) \<and>
   ([''data'', ''b.txt.gz''], WB) \<notin> set (opened (fst (gzip_web_files example_platform example_world))) \<and>
   entry (fst (gzip_web_files example_platform example_world)) [''data'', ''b.txt.gz'']
     = entry example_world [''data'', ''b.txt.gz''] \<and>
   entry (fst (gzip_web_files example_platform example_world)) [''data'', ''b.txt'']
     = entry example_world [''data'', ''b.txt'']"
proof -
  have g: "gz_of [''data'', ''b.txt''] = [''data'', ''b.txt.gz'']"
    by code_simp
  have h: "suffix_of [''data'', ''b.txt''] \<notin> extensions"
    by code_simp
  have a: "\<forall>q\<in>set (rglob example_world data_dir).
             is_file example_world q \<and> suffix_of q \<in> extensions \<longrightarrow> [''data'', ''b.txt''] \<noteq> gz_of q"
    by code_simp
  have o: "opened example_world = []" by (simp add: example_world_def)
  from other_extensions_not_compressed[OF h, of example_platform example_world] a
  show ?thesis unfolding g o by auto
qed

text \<open>
  Claim C5 (missing directory). When \<open>data\<close> does not exist the function returns
  normally; the world it leaves is the one it found, with the warning of line 16 printed
  and nothing else: no file created, none opened.
\<close>

theorem missing_data_dir_is_noop:
  assumes "\<not> path_exists w data_dir"
  shows "gzip_web_files pf w = (w\<lparr>stdout := stdout w @ [Warn_data_dir_not_found]\<rparr>, Returned)"
  using assms by (simp add: gzip_web_files_def print_def)

theorem missing_data_dir_is_noop_witness:
  "gzip_web_files example_platform empty_world =
     (\<lparr>files = [], stdout = [Warn_data_dir_not_found], opened = [], ticks = 0\<rparr>, Returned)"
proof -
  have "\<not> path_exists empty_world data_dir" by code_simp
  from missing_data_dir_is_noop[OF this, of example_platform] show ?thesis
    by (simp add: empty_world_def)
qed

text \<open>
  Claim C6 (empty source). On a platform that injects no I/O failure, and with no
  directory in the place of an artifact, the run returns normally; the artifact of an
  empty eligible source that is not skipped is written, and the line reported for it
  carries the percentage 0: the guard of line 44 keeps the division from being made.
  Lemma \<open>run_no_zero_division\<close> adds that no run at all ends in a
  \<open>ZeroDivisionError\<close>.
\<close>

theorem zero_byte_source:
  assumes nofault: "\<forall>q. faults pf q = None"
    and nodir: "\<forall>q\<in>set (rglob w data_dir). is_file w q \<and> suffix_of q \<in> extensions \<longrightarrow>
                  (\<forall>t n. lookup w (gz_of q) \<noteq> Some (Dir t n))"
    and under: "p \<in> set (rglob w data_dir)"
    and src: "lookup w p = Some (File [] t)"
    and ext: "suffix_of p \<in> extensions"
    and not_skipped: "gz_is_newer w (gz_of p) p = Inr False"
  shows "snd (gzip_web_files pf w) = Returned \<and>
         (\<exists>k. lookup (fst (gzip_web_files pf w)) (gz_of p) =
                 Some (File (compress pf (name_of (gz_of p)) (clock pf k) []) (clock pf k)) \<and>
               Compressed_line (name_of p) 0
                 (int (length (compress pf (name_of (gz_of p)) (clock pf k) []))) 0
                 \<in> set (stdout (fst (gzip_web_files pf w))))"
proof -
  from loop_total[OF nofault nodir, of "(0, 0)"] obtain w1 cs where
    l: "loop pf (rglob w data_dir) (0, 0) w = (w1, Inr cs)" by blast
  have returns: "snd (gzip_web_files pf w) = Returned"
  proof (cases pf w rule: gzip_web_files_cases)
    case no_data_dir then show ?thesis by simp
  next
    case (raised w1 e) with l show ?thesis by simp
  next
    case (returned w1 cs m) then show ?thesis by simp
  qed
  from under nodir src ext have "\<forall>t n. lookup w (gz_of p) \<noteq> Some (Dir t n)"
    by (simp add: is_file_def)
  from run_regenerates[OF returns under src ext not_skipped this] obtain k pct where
    a: "lookup (fst (gzip_web_files pf w)) (gz_of p) =
             Some (File (compress pf (name_of (gz_of p)) (clock pf k) []) (clock pf k))"
    and pct: "percent_of (int (length ([]::bytes)) -
              int (length (compress pf (name_of (gz_of p)) (clock pf k) []))) (int (length ([]::bytes))) = Inr pct"
    and m: "Compressed_line (name_of p) (int (length ([]::bytes)))
              (int (length (compress pf (name_of (gz_of p)) (clock pf k) []))) pct
             \<in> set (stdout (fst (gzip_web_files pf w)))"
    by blast
  from pct have "pct = 0" by (simp add: percent_of_zero)
  with m a returns show ?thesis by auto
qed

theorem zero_byte_source_witness:
  "snd (gzip_web_files example_platform example_world) = Returned \<and>
   Compressed_line ''e.js'' 0 2 0 \<in> set (stdout (fst (gzip_web_files example_platform example_world)))"
proof -
  have g: "gz_of [''data'', ''e.js''] = [''data'', ''e.js.gz'']" "name_of [''data'', ''e.js''] = ''e.js''"
    by code_simp+
  have h1: "\<forall>q. faults example_platform q = None" by (simp add: example_platform_def)
  have h2: "\<forall>q\<in>set (rglob example_world data_dir).
              is_file example_world q \<and> suffix_of q \<in> extensions \<longrightarrow>
              (\<forall>t n. lookup example_world (gz_of q) \<noteq> Some (Dir t n))"
  proof -
    have "\<forall>q\<in>set (rglob example_world data_dir).
            is_file example_world q \<and> suffix_of q \<in> extensions \<longrightarrow>
            (case lookup example_world (gz_of q) of Some (Dir _ _) \<Rightarrow> False | _ \<Rightarrow> True)"
      by code_simp
    then show ?thesis by (auto split: option.splits node.splits)
  qed
  have h3: "[''data'', ''e.js''] \<in> set (rglob example_world data_dir)" by code_simp
  have h4: "lookup example_world [''data'', ''e.js''] = Some (File [] 2)" by code_simp
  have h5: "suffix_of [''data'', ''e.js''] \<in> extensions" by code_simp
  have h6: "gz_is_newer example_world (gz_of [''data'', ''e.js'']) [''data'', ''e.js''] = Inr False"
    by code_simp
  from zero_byte_source[OF h1 h2 h3 h4 h5 h6] show ?thesis
    unfolding g by (auto simp: example_platform_def)
qed

text \<open>
  Claim C7 (no error handling). Let \<open>p\<close> be an eligible source of the walk that is not
  skipped, let the platform make an I/O operation of lines 35 to 37 fail on \<open>p\<close> (the
  opening of the source, the opening of the artifact, or the copy part-way), and let it
  inject no failure on the files the walk lists before \<open>p\<close>. Then the failure reaches the
  caller: the run raises, with \<open>PermissionError\<close> for a failed opening and \<open>OSError\<close>
  for a failed copy. Nothing is tried again: in the list of openings those of \<open>p\<close> come
  last and once, the source alone when its opening failed, the source and the artifact
  otherwise. Nothing is cleaned up: after a copy that failed part-way the artifact holds
  the bytes that had reached it; after a failed opening it is as it was.
\<close>

theorem io_failure_propagates:
  assumes walk: "rglob w data_dir = xs @ p # ys"
    and earlier: "\<forall>q\<in>set xs. faults pf q = None"
    and nodir: "\<forall>q\<in>set (rglob w data_dir). is_file w q \<and> suffix_of q \<in> extensions \<longrightarrow>
                  (\<forall>t n. lookup w (gz_of q) \<noteq> Some (Dir t n))"
    and src: "lookup w p = Some (File c t)"
    and ext: "suffix_of p \<in> extensions"
    and not_skipped: "gz_is_newer w (gz_of p) p = Inr False"
    and fault: "faults pf p = Some f"
  shows "snd (gzip_web_files pf w) =
           Raised (case f of Copy_fails _ \<Rightarrow> OSError | _ \<Rightarrow> PermissionError) \<and>
         lookup (fst (gzip_web_files pf w)) p = Some (File c t) \<and>
         (case f of
            Copy_fails partial \<Rightarrow>
              (\<exists>tm. lookup (fst (gzip_web_files pf w)) (gz_of p) = Some (File partial tm))
          | _ \<Rightarrow> lookup (fst (gzip_web_files pf w)) (gz_of p) = lookup w (gz_of p)) \<and>
         (\<exists>ops. opened (fst (gzip_web_files pf w)) =
                   opened w @ ops @
                     (case f of Read_open_fails \<Rightarrow> [(p, RB)] | _ \<Rightarrow> [(p, RB), (gz_of p, WB)]) \<and>
                 (p, RB) \<notin> set ops \<and> (gz_of p, WB) \<notin> set ops)"
proof -
  have mem: "p \<in> set (rglob w data_dir)" using walk by simp
  then have ex: "path_exists w data_dir" by (rule rglob_nonempty_exists)
  from distinct_rglob[of w data_dir] walk have notin: "p \<notin> set xs" by simp
  from nodir walk have nodir_xs: "\<forall>q\<in>set xs. is_file w q \<and> suffix_of q \<in> extensions \<longrightarrow>
                  (\<forall>t n. lookup w (gz_of q) \<noteq> Some (Dir t n))" by simp
  from nodir mem is_file_File[OF src] ext
  have nodir_p: "\<forall>t n. lookup w (gz_of p) \<noteq> Some (Dir t n)" by blast
  from loop_total_on[OF earlier nodir_xs, of "(0, 0)"] obtain w1 cs1 where
    before: "loop pf xs (0, 0) w = (w1, Inr cs1)" by blast
  from loop_other[OF before notin src ext nodir_p]
  have src1: "lookup w1 p = Some (File c t)"
    and art1: "lookup w1 (gz_of p) = lookup w (gz_of p)" by simp_all
  from gz_is_newer_cong[of w1 p w "gz_of p"] src1 src art1 not_skipped
  have stale1: "gz_is_newer w1 (gz_of p) p = Inr False" by simp
  from art1 nodir_p have nodir1: "\<forall>t n. lookup w1 (gz_of p) \<noteq> Some (Dir t n)" by simp
  let ?e = "case f of Copy_fails _ \<Rightarrow> OSError | _ \<Rightarrow> PermissionError"
  let ?tail = "case f of Read_open_fails \<Rightarrow> [(p, RB)] | _ \<Rightarrow> [(p, RB), (gz_of p, WB)]"
  from process_file_fault[OF src1 ext stale1 nodir1 fault, of cs1] obtain w2 where
    fails: "process_file pf p cs1 w1 = (w2, Inl ?e)"
    and src2: "lookup w2 p = Some (File c t)"
    and art2: "case f of
              Copy_fails partial \<Rightarrow> (\<exists>tm. lookup w2 (gz_of p) = Some (File partial tm))
            | _ \<Rightarrow> lookup w2 (gz_of p) = lookup w1 (gz_of p)"
    and op2: "opened w2 = opened w1 @ ?tail"
    by blast
  have "loop pf (xs @ p # ys) (0, 0) w = (w2, Inl ?e)"
    using before fails by (simp add: loop_append)
  with walk ex have run: "gzip_web_files pf w = (w2, Raised ?e)"
    by (simp add: gzip_web_files_def)
  from loop_opened[OF before] obtain ops where
    o: "opened w1 = opened w @ ops"
       "\<forall>x\<in>set ops. \<exists>q\<in>set xs. is_file w q \<and> suffix_of q \<in> extensions \<and>
           (x = (q, RB) \<or> x = (gz_of q, WB))" by blast
  have "(p, RB) \<notin> set ops"
  proof
    assume "(p, RB) \<in> set ops"
    with o(2) obtain q where "q \<in> set xs" "(p, RB) = (q, RB) \<or> (p, RB) = (gz_of q, WB)"
      by blast
    with notin show False by auto
  qed
  moreover have "(gz_of p, WB) \<notin> set ops"
  proof
    assume "(gz_of p, WB) \<in> set ops"
    with o(2) obtain q where q: "q \<in> set xs" "suffix_of q \<in> extensions"
      "(gz_of p, WB) = (q, RB) \<or> (gz_of p, WB) = (gz_of q, WB)" by blast
    then have "gz_of p = gz_of q" by auto
    with gz_of_eq_iff[OF q(2), of p] have "p = q" by simp
    with q(1) notin show False by simp
  qed
  moreover from o(1) op2 have "opened w2 = opened w @ ops @ ?tail" by simp
  ultimately have 4: "\<exists>ops. opened w2 = opened w @ ops @ ?tail \<and>
                 (p, RB) \<notin> set ops \<and> (gz_of p, WB) \<notin> set ops" by blast
  from art2 art1 have 3: "case f of
            Copy_fails partial \<Rightarrow> (\<exists>tm. lookup w2 (gz_of p) = Some (File partial tm))
          | _ \<Rightarrow> lookup w2 (gz_of p) = lookup w (gz_of p)"
    by (cases f) simp_all
  from run have f1: "fst (gzip_web_files pf w) = w2"
    and f2: "snd (gzip_web_files pf w) = Raised ?e" by simp_all
  show ?thesis unfolding f1 f2 by (intro conjI refl src2 3 4)
qed

theorem io_failure_propagates_witness:
  "snd (gzip_web_files failing_platform example_world) = Raised OSError \<and>
   lookup (fst (gzip_web_files failing_platform example_world)) [''data'', ''e.js'']
     = Some (File [] 2) \<and>
   (\<exists>tm. lookup (fst (gzip_web_files failing_platform example_world)) [''data'', ''e.js.gz'']
           = Some (File [31] tm))"
proof -
  let ?xs = "[[''data'', ''css''], [''data'', ''css'', ''a.css''], [''data'', ''css'', ''a.css.gz''],
              [''data'', ''b.txt''], [''data'', ''c.html''], [''data'', ''c.html.gz''],
              [''data'', ''d.json''], [''data'', ''d.json.gz'']]"
  let ?p = "[''data'', ''e.js'']"
  have g: "gz_of ?p = [''data'', ''e.js.gz'']" by code_simp
  have h1: "rglob example_world data_dir = ?xs @ ?p # []" by code_simp
  have h2: "\<forall>q\<in>set ?xs. faults failing_platform q = None"
    by (simp add: failing_platform_def example_platform_def)
  have h3: "\<forall>q\<in>set (rglob example_world data_dir).
              is_file example_world q \<and> suffix_of q \<in> extensions \<longrightarrow>
              (\<forall>t n. lookup example_world (gz_of q) \<noteq> Some (Dir t n))"
  proof -
    have "\<forall>q\<in>set (rglob example_world data_dir).
            is_file example_world q \<and> suffix_of q \<in> extensions \<longrightarrow>
            (case lookup example_world (gz_of q) of Some (Dir _ _) \<Rightarrow> False | _ \<Rightarrow> True)"
      by code_simp
    then show ?thesis by (auto split: option.splits node.splits)
  qed
  have h4: "lookup example_world ?p = Some (File [] 2)" by code_simp
  have h5: "suffix_of ?p \<in> extensions" by code_simp
  have h6: "gz_is_newer example_world (gz_of ?p) ?p = Inr False" by code_simp
  have h7: "faults failing_platform ?p = Some (Copy_fails [31])"
    by (simp add: failing_platform_def)
  from io_failure_propagates[OF h1 h2 h3 h4 h5 h6 h7] show ?thesis
    unfolding g by simp
qed

text \<open>
  Claim C8 (artifact path). For a path whose suffix is in the allow-set, line 27 computes
  the path with \<open>.gz\<close> appended after the existing extension; as a string it is the
  string of the source followed by \<open>.gz\<close>, and two different sources never share an
  artifact path.
\<close>

theorem artifact_path_appends_gz:
  assumes "suffix_of p \<in> extensions"
  shows "with_suffix p (suffix_of p @ ''.gz'') = Inr (gz_of p) \<and>
         path_str (gz_of p) = path_str p @ ''.gz'' \<and>
         (\<forall>q. suffix_of q \<in> extensions \<and> q \<noteq> p \<longrightarrow>
            with_suffix q (suffix_of q @ ''.gz'') \<noteq> with_suffix p (suffix_of p @ ''.gz''))"
proof -
  have 1: "with_suffix p (suffix_of p @ ''.gz'') = Inr (gz_of p)"
    by (rule with_suffix_gz[OF assms])
  have 2: "path_str (gz_of p) = path_str p @ ''.gz''"
    by (rule path_str_gz_of[OF eligible_name(1)[OF assms]])
  have 3: "with_suffix q (suffix_of q @ ''.gz'') \<noteq> with_suffix p (suffix_of p @ ''.gz'')"
    if "suffix_of q \<in> extensions" "q \<noteq> p" for q
    using gz_of_eq_iff[OF assms, of q] with_suffix_gz[OF that(1)] 1 that(2) by simp
  from 1 2 3 show ?thesis by blast
qed

theorem artifact_path_appends_gz_witness:
  "with_suffix [''data'', ''css'', ''a.css''] ''.css.gz'' = Inr [''data'', ''css'', ''a.css.gz''] \<and>
   path_str [''data'', ''css'', ''a.css.gz''] = ''data/css/a.css'' @ ''.gz''"
proof -
  have s: "suffix_of [''data'', ''css'', ''a.css''] = ''.css''" by code_simp
  have g: "gz_of [''data'', ''css'', ''a.css''] = [''data'', ''css'', ''a.css.gz'']" by code_simp
  have p: "path_str [''data'', ''css'', ''a.css''] = ''data/css/a.css''" by code_simp
  have h: "suffix_of [''data'', ''css'', ''a.css''] \<in> extensions" by code_simp
  from artifact_path_appends_gz[OF h] show ?thesis unfolding g p unfolding s by simp
qed

text \<open>
  Claim C9 (frame). Whatever the platform does and however the run ends: every eligible
  source keeps its entry; every path that is not the artifact path of an eligible source
  of the walk keeps its entry; and the only paths opened for writing are such artifact
  paths.
\<close>

theorem only_artifacts_written:
  "(\<forall>x. is_file w x \<and> suffix_of x \<in> extensions \<longrightarrow>
       lookup (fst (gzip_web_files pf w)) x = lookup w x) \<and>
   (\<forall>x. (\<forall>q\<in>set (rglob w data_dir). is_file w q \<and> suffix_of q \<in> extensions \<longrightarrow> x \<noteq> gz_of q)
       \<longrightarrow> entry (fst (gzip_web_files pf w)) x = entry w x) \<and>
   (\<exists>ops. opened (fst (gzip_web_files pf w)) = opened w @ ops \<and>
      (\<forall>x. (x, WB) \<in> set ops \<longrightarrow>
         (\<exists>q\<in>set (rglob w data_dir). is_file w q \<and> suffix_of q \<in> extensions \<and> x = gz_of q)))"
proof -
  have 1: "lookup (fst (gzip_web_files pf w)) x = lookup w x"
    if "is_file w x \<and> suffix_of x \<in> extensions" for x
  proof -
    from that obtain c t where l: "lookup w x = Some (File c t)" by (auto simp: is_file_iff)
    from that have "entry (fst (gzip_web_files pf w)) x = entry w x"
      using run_source_kept by blast
    from entry_File[OF this l] l show ?thesis by simp
  qed
  have 2: "entry (fst (gzip_web_files pf w)) x = entry w x"
    if "\<forall>q\<in>set (rglob w data_dir). is_file w q \<and> suffix_of q \<in> extensions \<longrightarrow> x \<noteq> gz_of q" for x
    using run_frame[of pf w x] that by blast
  from run_opened[of pf w] obtain ops where
    o: "opened (fst (gzip_web_files pf w)) = opened w @ ops"
       "\<forall>x\<in>set ops. \<exists>q\<in>set (rglob w data_dir). is_file w q \<and> suffix_of q \<in> extensions \<and>
           (x = (q, RB) \<or> x = (gz_of q, WB))" by blast
  have "\<forall>x. (x, WB) \<in> set ops \<longrightarrow>
         (\<exists>q\<in>set (rglob w data_dir). is_file w q \<and> suffix_of q \<in> extensions \<and> x = gz_of q)"
  proof (intro allI impI)
    fix x assume "(x, WB) \<in> set ops"
    with o(2) obtain q where "q \<in> set (rglob w data_dir)" "is_file w q" "suffix_of q \<in> extensions"
      "(x, WB) = (q, RB) \<or> (x, WB) = (gz_of q, WB)" by blast
    then show "\<exists>q\<in>set (rglob w data_dir). is_file w q \<and> suffix_of q \<in> extensions \<and> x = gz_of q"
      by auto
  qed
  with o(1) have 3: "\<exists>ops. opened (fst (gzip_web_files pf w)) = opened w @ ops \<and>
      (\<forall>x. (x, WB) \<in> set ops \<longrightarrow>
         (\<exists>q\<in>set (rglob w data_dir). is_file w q \<and> suffix_of q \<in> extensions \<and> x = gz_of q))"
    by blast
  from 1 2 3 show ?thesis by blast
qed

theorem only_artifacts_written_witness:
  "lookup (fst (gzip_web_files example_platform example_world)) [''data'', ''css'', ''a.css'']
     = Some (File [1, 2, 3] 5) \<and>
   entry (fst (gzip_web_files example_platform example_world)) [''data'', ''b.txt'']
     = Some (File [7] 2)"
proof -
  have a: "is_file example_world [''data'', ''css'', ''a.css''] \<and>
           suffix_of [''data'', ''css'', ''a.css''] \<in> extensions" by code_simp
  have b: "\<forall>q\<in>set (rglob example_world data_dir).
             is_file example_world q \<and> suffix_of q \<in> extensions \<longrightarrow> [''data'', ''b.txt''] \<noteq> gz_of q"
    by code_simp
  have c: "lookup example_world [''data'', ''css'', ''a.css''] = Some (File [1, 2, 3] 5)"
    by code_simp
  have d: "entry example_world [''data'', ''b.txt''] = Some (File [7] 2)"
    by code_simp
  from only_artifacts_written[of example_world example_platform] a b
  have "lookup (fst (gzip_web_files example_platform example_world)) [''data'', ''css'', ''a.css'']
          = lookup example_world [''data'', ''css'', ''a.css'']"
    and "entry (fst (gzip_web_files example_platform example_world)) [''data'', ''b.txt'']
          = entry example_world [''data'', ''b.txt'']"
    by blast+
  with c d show ?thesis by simp
qed

text \<open>
  Claim C10 (equal times). When source and artifact have the same modification time the
  comparison of line 30 is false, and a run that returns has opened both and has
  overwritten the artifact with the compression of the source.
\<close>

theorem equal_mtime_regenerated:
  assumes returns: "snd (gzip_web_files pf w) = Returned"
    and under: "p \<in> set (rglob w data_dir)"
    and src: "lookup w p = Some (File c t)"
    and ext: "suffix_of p \<in> extensions"
    and art: "lookup w (gz_of p) = Some (File z t)"
  shows "gz_is_newer w (gz_of p) p = Inr False \<and>
         (\<exists>k ops. lookup (fst (gzip_web_files pf w)) (gz_of p) =
             Some (File (compress pf (name_of (gz_of p)) (clock pf k) c) (clock pf k)) \<and>
           opened (fst (gzip_web_files pf w)) = opened w @ ops \<and>
           (p, RB) \<in> set ops \<and> (gz_of p, WB) \<in> set ops)"
proof -
  from gz_is_newer_File[OF src, of "gz_of p"] art
  have stale: "gz_is_newer w (gz_of p) p = Inr False" by simp
  from art have nodir: "\<forall>t n. lookup w (gz_of p) \<noteq> Some (Dir t n)" by simp
  from run_regenerates[OF returns under src ext stale nodir] stale show ?thesis by blast
qed

theorem equal_mtime_regenerated_witness:
  "\<exists>k ops. lookup (fst (gzip_web_files example_platform example_world)) [''data'', ''d.json.gz''] =
             Some (File (31 # 139 # [6]) (100 + of_nat k)) \<and>
           opened (fst (gzip_web_files example_platform example_world)) = ops \<and>
           ([''data'', ''d.json.gz''], WB) \<in> set ops"
proof -
  have g: "gz_of [''data'', ''d.json''] = [''data'', ''d.json.gz'']"
    by code_simp
  have h1: "snd (gzip_web_files example_platform example_world) = Returned"
    by code_simp
  have h2: "[''data'', ''d.json''] \<in> set (rglob example_world data_dir)"
    by code_simp
  have h3: "lookup example_world [''data'', ''d.json''] = Some (File [6] 7)"
    by code_simp
  have h4: "suffix_of [''data'', ''d.json''] \<in> extensions"
    by code_simp
  have h5: "lookup example_world (gz_of [''data'', ''d.json'']) = Some (File [8] 7)"
    by code_simp
  have o: "opened example_world = []" by (simp add: example_world_def)
  from equal_mtime_regenerated[OF h1 h2 h3 h4 h5] show ?thesis
    unfolding g o by (simp add: example_platform_def)
qed

end
